theory Spec2Isabelle
  imports Complex_Main "HOL-Library.Log_Nat"
begin

section \<open>Heightfield data model\<close>

text \<open>
  A span of a heightfield column (\<open>rcSpan\<close>): the height interval it occupies and its
  area id. The \<open>next\<close> pointer of the source is the position in the column: a column is
  the list of its spans from the bottom-most to the top-most, and \<open>span->next\<close> is the
  following list element (\<open>NULL\<close> after the last one). The fields are unsigned in the
  source and are read through \<open>(int)\<close> casts, written \<open>int\<close> here; all arithmetic
  of the filters is on the resulting \<open>int\<close> values. The \<open>int\<close> of the source is
  modelled by the unbounded integers: the heights of a heightfield are below the sentinel
  \<open>MAX_HEIGHTFIELD_HEIGHT\<close>, so sums and differences of heights stay far inside 32 bits,
  and the one operation on a parameter, \<open>-walkableClimb - 1\<close>, overflows for no
  \<open>walkableClimb\<close> other than the least \<open>int\<close>.
\<close>

record rcSpan =
  smin :: nat
  smax :: nat
  area :: nat

text \<open>
  \<open>rcHeightfield\<close>: \<open>width\<close> and \<open>height\<close> are the grid size along x and z,
  \<open>spans\<close> the array of columns, column \<open>(x, z)\<close> at index \<open>x + z * width\<close>. The
  sizes are \<open>int\<close> fields that are never negative; the loops of the filters run over
  \<open>0 \<le> x < width\<close> and \<open>0 \<le> z < height\<close>.
\<close>

record rcHeightfield =
  width :: nat
  height :: nat
  spans :: "rcSpan list list"

definition MAX_HEIGHTFIELD_HEIGHT :: int where
  "MAX_HEIGHTFIELD_HEIGHT = 65535"

text \<open>
  Modelled from the spec: the area constants \<open>RC_NULL_AREA\<close> and \<open>RC_WALKABLE_AREA\<close>
  are declared in the header \<open>Recast.h\<close>, which is not among the sources. The spec calls
  them the null/unwalkable id and the ordinary walkable classification (a positive id).
\<close>

definition RC_NULL_AREA :: nat where
  "RC_NULL_AREA = 0"

definition RC_WALKABLE_AREA :: nat where
  "RC_WALKABLE_AREA = 63"

text \<open>
  Modelled from the spec: \<open>rcGetDirOffsetX\<close> and \<open>rcGetDirOffsetY\<close> are inline helpers
  of \<open>Recast.h\<close>, not among the sources. The spec has the four grid-adjacent neighbour
  columns \<open>\<plusminus>x\<close>, \<open>\<plusminus>z\<close>; directions 0..3 are taken as \<open>-x\<close>, \<open>+z\<close>, \<open>+x\<close>, \<open>-z\<close>.
\<close>

definition rcGetDirOffsetX :: "nat \<Rightarrow> int" where
  "rcGetDirOffsetX direction = [-1, 0, 1, 0] ! (direction mod 4)"

definition rcGetDirOffsetY :: "nat \<Rightarrow> int" where
  "rcGetDirOffsetY direction = [0, 1, 0, -1] ! (direction mod 4)"

text \<open>\<open>heightfield.spans[c]\<close>: the column at index \<open>c\<close>; an index outside the array is
  never read by the filters and gives the empty column here.\<close>

definition columnAt :: "rcHeightfield \<Rightarrow> nat \<Rightarrow> rcSpan list" where
  "columnAt hf c = (if c < length (spans hf) then spans hf ! c else [])"

text \<open>\<open>span->area = a\<close> for the span at position \<open>i\<close> of column \<open>c\<close>.\<close>

definition setArea :: "rcHeightfield \<Rightarrow> nat \<Rightarrow> nat \<Rightarrow> nat \<Rightarrow> rcHeightfield" where
  "setArea hf c i a =
     hf\<lparr>spans := (spans hf)[c := (columnAt hf c)[i := (columnAt hf c ! i)\<lparr>area := a\<rparr>]]\<rparr>"

text \<open>\<open>span->next ? (int)span->next->smin : MAX_HEIGHTFIELD_HEIGHT\<close> for the span at
  position \<open>i\<close> of the column \<open>col\<close>.\<close>

definition nextSmin :: "rcSpan list \<Rightarrow> nat \<Rightarrow> int" where
  "nextSmin col i =
     (if Suc i < length col then int (smin (col ! Suc i)) else MAX_HEIGHTFIELD_HEIGHT)"

section \<open>rcFilterLowHangingWalkableObstacles\<close>

text \<open>
  The loop over one column. The loop variables \<open>previousSpan\<close>, \<open>previousWasWalkable\<close>
  and \<open>previousAreaID\<close> are arguments; \<open>previousSpan\<close> is \<open>None\<close> for \<open>NULL\<close>, and
  is only dereferenced behind \<open>previousWasWalkable\<close>, which is false while it is \<open>NULL\<close>.
\<close>

fun lowHangingColumn :: "int \<Rightarrow> rcSpan option \<Rightarrow> bool \<Rightarrow> nat \<Rightarrow> rcSpan list \<Rightarrow> rcSpan list" where
  "lowHangingColumn walkableClimb previousSpan previousWasWalkable previousAreaID [] = []"
| "lowHangingColumn walkableClimb previousSpan previousWasWalkable previousAreaID (sp # rest) =
     (let walkable = (area sp \<noteq> RC_NULL_AREA);
          sp' =
            (if \<not> walkable \<and> previousWasWalkable \<and>
                (case previousSpan of
                   None \<Rightarrow> False
                 | Some p \<Rightarrow> int (smax sp) - int (smax p) \<le> walkableClimb)
             then sp\<lparr>area := previousAreaID\<rparr>
             else sp)
      in sp' # lowHangingColumn walkableClimb (Some sp') walkable (area sp') rest)"

definition lowHangingColumnAt :: "int \<Rightarrow> nat \<Rightarrow> rcHeightfield \<Rightarrow> rcHeightfield" where
  "lowHangingColumnAt walkableClimb c hf =
     hf\<lparr>spans := (spans hf)[c := lowHangingColumn walkableClimb None False RC_NULL_AREA (columnAt hf c)]\<rparr>"

definition rcFilterLowHangingWalkableObstacles :: "int \<Rightarrow> rcHeightfield \<Rightarrow> rcHeightfield" where
  "rcFilterLowHangingWalkableObstacles walkableClimb heightfield =
     (let xSize = width heightfield; zSize = height heightfield
      in fold (\<lambda>z. fold (\<lambda>x. lowHangingColumnAt walkableClimb (x + z * xSize)) [0..<xSize])
           [0..<zSize] heightfield)"

section \<open>rcFilterLedgeSpans\<close>

text \<open>
  The loop over the spans of one neighbour column, from the span list \<open>ns\<close> on. The
  accumulator is \<open>(lowestNeighborFloorDifference, lowestTraversableNeighborFloor,
  highestTraversableNeighborFloor)\<close>. \<open>continue\<close> goes on with the rest of the column,
  \<open>break\<close> returns the accumulator.
\<close>

fun scanNeighborColumn :: "int \<Rightarrow> int \<Rightarrow> int \<Rightarrow> int \<Rightarrow> rcSpan list \<Rightarrow> int \<times> int \<times> int \<Rightarrow> int \<times> int \<times> int" where
  "scanNeighborColumn walkableHeight walkableClimb spanFloor spanCeiling [] acc = acc"
| "scanNeighborColumn walkableHeight walkableClimb spanFloor spanCeiling (neighborSpan # ns) (lnfd, lo, hi) =
     (let neighborFloor = int (smax neighborSpan);
          neighborCeiling = (case ns of [] \<Rightarrow> MAX_HEIGHTFIELD_HEIGHT | nxt # _ \<Rightarrow> int (smin nxt))
      in if min spanCeiling neighborCeiling - max spanFloor neighborFloor < walkableHeight
         then scanNeighborColumn walkableHeight walkableClimb spanFloor spanCeiling ns (lnfd, lo, hi)
         else
           (let neighborFloorDifference = neighborFloor - spanFloor;
                lnfd' = min lnfd neighborFloorDifference
            in if \<bar>neighborFloorDifference\<bar> \<le> walkableClimb
               then scanNeighborColumn walkableHeight walkableClimb spanFloor spanCeiling ns
                      (lnfd', min lo neighborFloor, max hi neighborFloor)
               else if neighborFloorDifference < - walkableClimb
               then (lnfd', lo, hi)
               else scanNeighborColumn walkableHeight walkableClimb spanFloor spanCeiling ns (lnfd', lo, hi)))"

text \<open>The loop over the directions, from the list \<open>ds\<close> of the directions still to scan.\<close>

fun scanDirections :: "rcHeightfield \<Rightarrow> int \<Rightarrow> int \<Rightarrow> nat \<Rightarrow> nat \<Rightarrow> nat \<Rightarrow> nat \<Rightarrow> int \<Rightarrow> int \<Rightarrow> nat list \<Rightarrow> int \<times> int \<times> int \<Rightarrow> int \<times> int \<times> int" where
  "scanDirections hf walkableHeight walkableClimb xSize zSize x z spanFloor spanCeiling [] acc = acc"
| "scanDirections hf walkableHeight walkableClimb xSize zSize x z spanFloor spanCeiling (direction # ds) (lnfd, lo, hi) =
     (let neighborX = int x + rcGetDirOffsetX direction;
          neighborZ = int z + rcGetDirOffsetY direction
      in if neighborX < 0 \<or> neighborZ < 0 \<or> neighborX \<ge> int xSize \<or> neighborZ \<ge> int zSize
         then (- walkableClimb - 1, lo, hi)
         else
           (let neighborColumn = columnAt hf (nat neighborX + nat neighborZ * xSize);
                neighborCeiling =
                  (case neighborColumn of
                     [] \<Rightarrow> MAX_HEIGHTFIELD_HEIGHT
                   | neighborSpan # _ \<Rightarrow> int (smin neighborSpan))
            in if min spanCeiling neighborCeiling - spanFloor \<ge> walkableHeight
               then (- walkableClimb - 1, lo, hi)
               else scanDirections hf walkableHeight walkableClimb xSize zSize x z spanFloor spanCeiling ds
                      (scanNeighborColumn walkableHeight walkableClimb spanFloor spanCeiling neighborColumn
                         (lnfd, lo, hi))))"

text \<open>The neighbour scan of the span at position \<open>i\<close> of column \<open>(x, z)\<close>, from the
  initial values of the three variables.\<close>

definition ledgeScan :: "rcHeightfield \<Rightarrow> int \<Rightarrow> int \<Rightarrow> nat \<Rightarrow> nat \<Rightarrow> nat \<Rightarrow> nat \<Rightarrow> nat \<Rightarrow> int \<times> int \<times> int" where
  "ledgeScan hf walkableHeight walkableClimb xSize zSize x z i =
     (let col = columnAt hf (x + z * xSize);
          spanFloor = int (smax (col ! i));
          spanCeiling = nextSmin col i
      in scanDirections hf walkableHeight walkableClimb xSize zSize x z spanFloor spanCeiling [0, 1, 2, 3]
           (MAX_HEIGHTFIELD_HEIGHT, spanFloor, spanFloor))"

text \<open>The body of the loop over the spans of column \<open>(x, z)\<close>, for the span at
  position \<open>i\<close>.\<close>

definition ledgeSpan :: "int \<Rightarrow> int \<Rightarrow> nat \<Rightarrow> nat \<Rightarrow> nat \<Rightarrow> nat \<Rightarrow> nat \<Rightarrow> rcHeightfield \<Rightarrow> rcHeightfield" where
  "ledgeSpan walkableHeight walkableClimb xSize zSize x z i hf =
     (if area (columnAt hf (x + z * xSize) ! i) = RC_NULL_AREA then hf
      else
        (case ledgeScan hf walkableHeight walkableClimb xSize zSize x z i of
           (lowestNeighborFloorDifference, lowestTraversableNeighborFloor, highestTraversableNeighborFloor) \<Rightarrow>
             if lowestNeighborFloorDifference < - walkableClimb
             then setArea hf (x + z * xSize) i RC_NULL_AREA
             else if highestTraversableNeighborFloor - lowestTraversableNeighborFloor > walkableClimb
             then setArea hf (x + z * xSize) i RC_NULL_AREA
             else hf))"

definition ledgeColumn :: "int \<Rightarrow> int \<Rightarrow> nat \<Rightarrow> nat \<Rightarrow> nat \<Rightarrow> nat \<Rightarrow> rcHeightfield \<Rightarrow> rcHeightfield" where
  "ledgeColumn walkableHeight walkableClimb xSize zSize x z hf =
     fold (ledgeSpan walkableHeight walkableClimb xSize zSize x z)
       [0..<length (columnAt hf (x + z * xSize))] hf"

definition rcFilterLedgeSpans :: "int \<Rightarrow> int \<Rightarrow> rcHeightfield \<Rightarrow> rcHeightfield" where
  "rcFilterLedgeSpans walkableHeight walkableClimb heightfield =
     (let xSize = width heightfield; zSize = height heightfield
      in fold (\<lambda>z. fold (\<lambda>x. ledgeColumn walkableHeight walkableClimb xSize zSize x z) [0..<xSize])
           [0..<zSize] heightfield)"

section \<open>rcFilterWalkableLowHeightSpans\<close>

text \<open>The body of the loop over the spans of column \<open>(x, z)\<close>, for the span at
  position \<open>i\<close>.\<close>

definition lowHeightSpan :: "int \<Rightarrow> nat \<Rightarrow> nat \<Rightarrow> nat \<Rightarrow> nat \<Rightarrow> rcHeightfield \<Rightarrow> rcHeightfield" where
  "lowHeightSpan walkableHeight xSize x z i hf =
     (let col = columnAt hf (x + z * xSize);
          spanFloor = int (smax (col ! i));
          spanCeiling = nextSmin col i
      in if spanCeiling - spanFloor < walkableHeight
         then setArea hf (x + z * xSize) i RC_NULL_AREA
         else hf)"

definition lowHeightColumn :: "int \<Rightarrow> nat \<Rightarrow> nat \<Rightarrow> nat \<Rightarrow> rcHeightfield \<Rightarrow> rcHeightfield" where
  "lowHeightColumn walkableHeight xSize x z hf =
     fold (lowHeightSpan walkableHeight xSize x z) [0..<length (columnAt hf (x + z * xSize))] hf"

definition rcFilterWalkableLowHeightSpans :: "int \<Rightarrow> rcHeightfield \<Rightarrow> rcHeightfield" where
  "rcFilterWalkableLowHeightSpans walkableHeight heightfield =
     (let xSize = width heightfield; zSize = height heightfield
      in fold (\<lambda>z. fold (\<lambda>x. lowHeightColumn walkableHeight xSize x z) [0..<xSize])
           [0..<zSize] heightfield)"

section \<open>rcFilterRuggedAreaSpans\<close>

text \<open>
  The chains of the rugged-area pass hold pointers to spans and the pass compares them
  by identity, so a span pointer is a handle here: the index of the column and the
  position of the span in it. A chain (\<open>std::vector<rcSpan*>\<close>) is a list of handles, the
  working list (\<open>std::list\<close> of chains) a list of chains.
\<close>

type_synonym spanRef = "nat \<times> nat"

definition spanAt :: "rcHeightfield \<Rightarrow> spanRef \<Rightarrow> rcSpan" where
  "spanAt hf r = columnAt hf (fst r) ! snd r"

definition MAX_SLOPE_SAMPLE_STEP :: nat where
  "MAX_SLOPE_SAMPLE_STEP = 9"

text \<open>\<open>_InitSpanListInColume(span)\<close>: one chain for \<open>span\<close> and for each span above it
  in its column.\<close>

definition InitSpanListInColume :: "rcHeightfield \<Rightarrow> spanRef \<Rightarrow> spanRef list list" where
  "InitSpanListInColume hf r =
     map (\<lambda>j. [(fst r, j)]) [snd r..<length (columnAt hf (fst r))]"

text \<open>The loop over the working list: the first chain whose \<open>back()\<close> is the current span
  gets the neighbour span appended, and the loop ends there. No chain is ever empty in
  the source (each starts with one element), which the test \<open>ch \<noteq> []\<close> stands for.\<close>

fun extendFirst :: "spanRef \<Rightarrow> spanRef \<Rightarrow> spanRef list list \<Rightarrow> spanRef list list" where
  "extendFirst CurrentSpan NeighborSpan [] = []"
| "extendFirst CurrentSpan NeighborSpan (ch # chs) =
     (if ch \<noteq> [] \<and> last ch = CurrentSpan then (ch @ [NeighborSpan]) # chs
      else ch # extendFirst CurrentSpan NeighborSpan chs)"

text \<open>The loop over the spans of the neighbour column, for one current span.\<close>

definition scanNeighborSpans :: "rcHeightfield \<Rightarrow> int \<Rightarrow> spanRef \<Rightarrow> nat \<Rightarrow> spanRef list list \<Rightarrow> spanRef list list" where
  "scanNeighborSpans hf walkableClimb CurrentSpan neighborIdx work =
     fold (\<lambda>j chs.
             if area (spanAt hf (neighborIdx, j)) = RC_NULL_AREA then chs
             else if \<bar>int (smax (spanAt hf CurrentSpan)) - int (smax (spanAt hf (neighborIdx, j)))\<bar>
                       \<le> walkableClimb
             then extendFirst CurrentSpan (neighborIdx, j) chs
             else chs)
       [0..<length (columnAt hf neighborIdx)] work"

text \<open>The loop over the spans of the current column, from the positions \<open>is\<close> on; it
  ends at the first span that is not walkable.\<close>

fun scanCurrentSpans :: "rcHeightfield \<Rightarrow> int \<Rightarrow> nat \<Rightarrow> nat \<Rightarrow> nat list \<Rightarrow> spanRef list list \<Rightarrow> spanRef list list" where
  "scanCurrentSpans hf walkableClimb currentIdx neighborIdx [] work = work"
| "scanCurrentSpans hf walkableClimb currentIdx neighborIdx (i # is) work =
     (if area (spanAt hf (currentIdx, i)) = RC_NULL_AREA then work
      else scanCurrentSpans hf walkableClimb currentIdx neighborIdx is
             (scanNeighborSpans hf walkableClimb (currentIdx, i) neighborIdx work))"

text \<open>One sample step: the current column against the neighbour column.\<close>

definition sampleStep :: "rcHeightfield \<Rightarrow> int \<Rightarrow> nat \<Rightarrow> nat \<Rightarrow> spanRef list list \<Rightarrow> spanRef list list" where
  "sampleStep hf walkableClimb currentIdx neighborIdx work =
     scanCurrentSpans hf walkableClimb currentIdx neighborIdx
       [0..<length (columnAt hf currentIdx)] work"

text \<open>
  The loop over the sample steps, with \<open>n\<close> steps left. The source writes it twice, for
  the x axis and for the z axis; the two differ in the grid size the sample points are
  compared with (\<open>limit\<close>) and in the column index of a sample point (\<open>columnOf\<close>).
\<close>

fun sampleLoop :: "rcHeightfield \<Rightarrow> int \<Rightarrow> int \<Rightarrow> (int \<Rightarrow> nat) \<Rightarrow> nat \<Rightarrow> int \<Rightarrow> int \<Rightarrow> spanRef list list \<Rightarrow> spanRef list list" where
  "sampleLoop hf walkableClimb limit columnOf 0 CurrentSamplePoint NeighborSamplePoint work = work"
| "sampleLoop hf walkableClimb limit columnOf (Suc n) CurrentSamplePoint NeighborSamplePoint work =
     (if CurrentSamplePoint < 0 \<or> CurrentSamplePoint \<ge> limit \<or>
         NeighborSamplePoint < 0 \<or> NeighborSamplePoint \<ge> limit
      then work
      else sampleLoop hf walkableClimb limit columnOf n (CurrentSamplePoint + 1) (NeighborSamplePoint + 1)
             (sampleStep hf walkableClimb (columnOf CurrentSamplePoint) (columnOf NeighborSamplePoint) work))"

definition buildChainsX :: "rcHeightfield \<Rightarrow> int \<Rightarrow> nat \<Rightarrow> nat \<Rightarrow> nat \<Rightarrow> nat \<Rightarrow> spanRef list list" where
  "buildChainsX hf walkableClimb xSize x z i =
     sampleLoop hf walkableClimb (int xSize) (\<lambda>p. nat p + z * xSize) MAX_SLOPE_SAMPLE_STEP
       (int x) (int x + 1) (InitSpanListInColume hf (x + z * xSize, i))"

definition buildChainsZ :: "rcHeightfield \<Rightarrow> int \<Rightarrow> nat \<Rightarrow> nat \<Rightarrow> nat \<Rightarrow> nat \<Rightarrow> nat \<Rightarrow> spanRef list list" where
  "buildChainsZ hf walkableClimb xSize zSize x z i =
     sampleLoop hf walkableClimb (int zSize) (\<lambda>p. x + nat p * xSize) MAX_SLOPE_SAMPLE_STEP
       (int z) (int z + 1) (InitSpanListInColume hf (x + z * xSize, i))"

text \<open>The first inner loop of \<open>_EvaluateRuggedArea\<close>: \<open>(TotalDiff, TotalConnectedSpanCount)\<close>
  of one chain.\<close>

definition chainTotals :: "rcHeightfield \<Rightarrow> spanRef list \<Rightarrow> int \<times> int" where
  "chainTotals hf ch =
     fold (\<lambda>i (TotalDiff, TotalConnectedSpanCount).
             (TotalDiff + \<bar>int (smax (spanAt hf (ch ! (i - 1)))) - int (smax (spanAt hf (ch ! i)))\<bar>,
              TotalConnectedSpanCount + 1))
       [1..<length ch] (0, 0)"

text \<open>
  The average slope is computed in single-precision floating point:
  \<open>float avgSlope = (float)TotalDiff / (float)TotalConnectedSpanCount\<close>. A \<open>float\<close> is
  modelled by the rational number it denotes, and each of the three operations (the two
  conversions and the division) by the exact result rounded to the nearest number with
  a significand of 24 bits, ties going to the even significand (IEEE 754 binary32 in the
  default rounding mode).

  \<open>binaryExponent q\<close> is the exponent \<open>e\<close> with \<open>2 powi e \<le> \<bar>q\<bar> < 2 powi (e + 1)\<close>, found from
  the bit lengths of numerator and denominator. The exponent range of the format is not
  modelled: the two totals are 32-bit integers, so every value met here is 0 or has an
  exponent between -31 and 31, where binary32 neither overflows nor is subnormal.
\<close>

definition binaryExponent :: "rat \<Rightarrow> int" where
  "binaryExponent q =
     (case quotient_of \<bar>q\<bar> of
        (a, b) \<Rightarrow> let e = bitlen a - bitlen b in if 2 powi e \<le> \<bar>q\<bar> then e else e - 1)"

definition roundHalfEven :: "rat \<Rightarrow> int" where
  "roundHalfEven m =
     (let fl = \<lfloor>m\<rfloor>; frac = m - of_int fl
      in if frac < 1 / 2 then fl
         else if 1 / 2 < frac then fl + 1
         else if even fl then fl else fl + 1)"

definition float32 :: "rat \<Rightarrow> rat" where
  "float32 q =
     (if q = 0 then 0
      else let ulp = 2 powi (binaryExponent q - 23) in of_int (roundHalfEven (q / ulp)) * ulp)"

text \<open>
  \<open>avgSlope >= SlopeThreshold\<close>, with \<open>avgSlope\<close> as above. \<open>SlopeThreshold\<close> is a
  \<open>float\<close> parameter: the rational number it denotes.
\<close>

definition avgSlopeGE :: "int \<Rightarrow> int \<Rightarrow> rat \<Rightarrow> bool" where
  "avgSlopeGE TotalDiff TotalConnectedSpanCount SlopeThreshold \<longleftrightarrow>
     float32 (float32 (of_int TotalDiff) / float32 (of_int TotalConnectedSpanCount)) \<ge> SlopeThreshold"

text \<open>The second inner loop: every span of the chain gets the rugged area id.\<close>

definition markChain :: "nat \<Rightarrow> spanRef list \<Rightarrow> rcHeightfield \<Rightarrow> rcHeightfield" where
  "markChain RuggedAreaID ch hf =
     fold (\<lambda>n h. setArea h (fst (ch ! n)) (snd (ch ! n)) RuggedAreaID) [0..<length ch] hf"

text \<open>The body of the loop of \<open>_EvaluateRuggedArea\<close> over the chains. \<open>front()\<close> of an
  empty chain is undefined in the source, where no chain is empty; the model leaves the
  heightfield as it is.\<close>

definition evaluateChain :: "rat \<Rightarrow> nat \<Rightarrow> spanRef list \<Rightarrow> rcHeightfield \<Rightarrow> rcHeightfield" where
  "evaluateChain SlopeThreshold RuggedAreaID ch hf =
     (case ch of
        [] \<Rightarrow> hf
      | startSpan # _ \<Rightarrow>
          if area (spanAt hf startSpan) \<noteq> RC_WALKABLE_AREA then hf
          else
            (case chainTotals hf ch of
               (TotalDiff, TotalConnectedSpanCount) \<Rightarrow>
                 if TotalConnectedSpanCount > 0
                 then (if avgSlopeGE TotalDiff TotalConnectedSpanCount SlopeThreshold
                       then markChain RuggedAreaID ch hf
                       else hf)
                 else hf))"

definition EvaluateRuggedArea :: "spanRef list list \<Rightarrow> rat \<Rightarrow> nat \<Rightarrow> rcHeightfield \<Rightarrow> rcHeightfield" where
  "EvaluateRuggedArea ConnectedSpanListsInColume SlopeThreshold RuggedAreaID hf =
     fold (evaluateChain SlopeThreshold RuggedAreaID) ConnectedSpanListsInColume hf"

text \<open>The x-axis pass and the z-axis pass for one origin span.\<close>

definition ruggedPassX :: "int \<Rightarrow> rat \<Rightarrow> nat \<Rightarrow> nat \<Rightarrow> nat \<Rightarrow> nat \<Rightarrow> nat \<Rightarrow> rcHeightfield \<Rightarrow> rcHeightfield" where
  "ruggedPassX walkableClimb SlopeThreshold RuggedAreaID xSize x z i hf =
     EvaluateRuggedArea (buildChainsX hf walkableClimb xSize x z i) SlopeThreshold RuggedAreaID hf"

definition ruggedPassZ :: "int \<Rightarrow> rat \<Rightarrow> nat \<Rightarrow> nat \<Rightarrow> nat \<Rightarrow> nat \<Rightarrow> nat \<Rightarrow> nat \<Rightarrow> rcHeightfield \<Rightarrow> rcHeightfield" where
  "ruggedPassZ walkableClimb SlopeThreshold RuggedAreaID xSize zSize x z i hf =
     EvaluateRuggedArea (buildChainsZ hf walkableClimb xSize zSize x z i) SlopeThreshold RuggedAreaID hf"

text \<open>The body of the loop over the spans of column \<open>(x, z)\<close>, for the origin span at
  position \<open>i\<close>. \<open>RuggedAreaID\<close> is an \<open>int\<close> in the source and is taken here as a
  value of the area field.\<close>

definition ruggedSpan :: "int \<Rightarrow> rat \<Rightarrow> nat \<Rightarrow> nat \<Rightarrow> nat \<Rightarrow> nat \<Rightarrow> nat \<Rightarrow> nat \<Rightarrow> rcHeightfield \<Rightarrow> rcHeightfield" where
  "ruggedSpan walkableClimb SlopeThreshold RuggedAreaID xSize zSize x z i hf =
     (if area (spanAt hf (x + z * xSize, i)) = RC_NULL_AREA then hf
      else
        (let hf1 = ruggedPassX walkableClimb SlopeThreshold RuggedAreaID xSize x z i hf
         in if area (spanAt hf1 (x + z * xSize, i)) \<noteq> RuggedAreaID
            then ruggedPassZ walkableClimb SlopeThreshold RuggedAreaID xSize zSize x z i hf1
            else hf1))"

definition ruggedColumn :: "int \<Rightarrow> rat \<Rightarrow> nat \<Rightarrow> nat \<Rightarrow> nat \<Rightarrow> nat \<Rightarrow> nat \<Rightarrow> rcHeightfield \<Rightarrow> rcHeightfield" where
  "ruggedColumn walkableClimb SlopeThreshold RuggedAreaID xSize zSize x z hf =
     fold (ruggedSpan walkableClimb SlopeThreshold RuggedAreaID xSize zSize x z)
       [0..<length (columnAt hf (x + z * xSize))] hf"

definition rcFilterRuggedAreaSpans :: "int \<Rightarrow> int \<Rightarrow> rat \<Rightarrow> nat \<Rightarrow> rcHeightfield \<Rightarrow> rcHeightfield" where
  "rcFilterRuggedAreaSpans walkableHeight walkableClimb SlopeThreshold RuggedAreaID heightfield =
     (let xSize = width heightfield; zSize = height heightfield
      in fold (\<lambda>z. fold (\<lambda>x. ruggedColumn walkableClimb SlopeThreshold RuggedAreaID xSize zSize x z) [0..<xSize])
           [0..<zSize] heightfield)"

section \<open>Specification-level definitions\<close>

text \<open>The test at the end of the loop body of \<open>rcFilterLedgeSpans\<close>, on the values the
  neighbour scan of the span returns.\<close>

definition ledgeDemotes :: "rcHeightfield \<Rightarrow> int \<Rightarrow> int \<Rightarrow> nat \<Rightarrow> nat \<Rightarrow> nat \<Rightarrow> bool" where
  "ledgeDemotes hf walkableHeight walkableClimb x z i =
     (case ledgeScan hf walkableHeight walkableClimb (width hf) (height hf) x z i of
        (lnfd, lo, hi) \<Rightarrow> lnfd < - walkableClimb \<or> hi - lo > walkableClimb)"

text \<open>
  The two-phase variant of \<open>rcFilterLedgeSpans\<close> of claim C10, following the claim's
  words. The first phase lists, in the order of the pass, the spans to demote: the
  walkable spans of the snapshot whose neighbour scan on the snapshot meets the test.
  The second phase writes \<open>RC_NULL_AREA\<close> to each of them.
\<close>

definition ledgeDecisions :: "int \<Rightarrow> int \<Rightarrow> rcHeightfield \<Rightarrow> (nat \<times> nat) list" where
  "ledgeDecisions walkableHeight walkableClimb snapshot =
     concat (map (\<lambda>z. concat (map (\<lambda>x.
        map (\<lambda>i. (x + z * width snapshot, i))
          (filter (\<lambda>i. area (spanAt snapshot (x + z * width snapshot, i)) \<noteq> RC_NULL_AREA \<and>
                        ledgeDemotes snapshot walkableHeight walkableClimb x z i)
             [0..<length (columnAt snapshot (x + z * width snapshot))]))
        [0..<width snapshot])) [0..<height snapshot])"

definition applyDemotions :: "(nat \<times> nat) list \<Rightarrow> rcHeightfield \<Rightarrow> rcHeightfield" where
  "applyDemotions ds hf = fold (\<lambda>r h. setArea h (fst r) (snd r) RC_NULL_AREA) ds hf"

definition ledgeTwoPhase :: "int \<Rightarrow> int \<Rightarrow> rcHeightfield \<Rightarrow> rcHeightfield" where
  "ledgeTwoPhase walkableHeight walkableClimb heightfield =
     applyDemotions (ledgeDecisions walkableHeight walkableClimb heightfield) heightfield"

text \<open>The bounds test of the direction loop for the neighbour of column \<open>(x, z)\<close> in
  a direction.\<close>

definition neighborOutOfBounds :: "nat \<Rightarrow> nat \<Rightarrow> nat \<Rightarrow> nat \<Rightarrow> nat \<Rightarrow> bool" where
  "neighborOutOfBounds xSize zSize x z direction \<longleftrightarrow>
     int x + rcGetDirOffsetX direction < 0 \<or> int z + rcGetDirOffsetY direction < 0 \<or>
     int x + rcGetDirOffsetX direction \<ge> int xSize \<or> int z + rcGetDirOffsetY direction \<ge> int zSize"

text \<open>\<open>heightfield.spans[neighborX + neighborZ * xSize]\<close> for a neighbour inside the grid.\<close>

definition neighborColumn :: "rcHeightfield \<Rightarrow> nat \<Rightarrow> nat \<Rightarrow> nat \<Rightarrow> nat \<Rightarrow> rcSpan list" where
  "neighborColumn hf xSize x z direction =
     columnAt hf (nat (int x + rcGetDirOffsetX direction) + nat (int z + rcGetDirOffsetY direction) * xSize)"

text \<open>The first value of \<open>neighborCeiling\<close>: the lower bound of the bottom-most span of
  the neighbour column, the ceiling of the space beneath it; the sentinel for an empty
  column.\<close>

definition subFloorCeiling :: "rcSpan list \<Rightarrow> int" where
  "subFloorCeiling col = (case col of [] \<Rightarrow> MAX_HEIGHTFIELD_HEIGHT | neighborSpan # _ \<Rightarrow> int (smin neighborSpan))"

text \<open>\<open>rcMin(ceiling, neighborCeiling) - rcMax(floor, neighborFloor)\<close> for the span at
  position \<open>j\<close> of a neighbour column.\<close>

definition overlap :: "int \<Rightarrow> int \<Rightarrow> rcSpan list \<Rightarrow> nat \<Rightarrow> int" where
  "overlap spanFloor spanCeiling col j =
     min spanCeiling (nextSmin col j) - max spanFloor (int (smax (col ! j)))"

text \<open>The absolute differences of successive floors along a chain.\<close>

definition stepHeights :: "rcHeightfield \<Rightarrow> spanRef list \<Rightarrow> int list" where
  "stepHeights hf ch =
     map (\<lambda>k. \<bar>int (smax (spanAt hf (ch ! k))) - int (smax (spanAt hf (ch ! Suc k)))\<bar>) [0..<length ch - 1]"

text \<open>The pairs of a sample step, in the order the loops reach them: the positions of
  the current column up to, not including, the first span that is not walkable, each
  with the positions of the walkable spans of the neighbour column whose floor is within
  \<open>walkableClimb\<close> of its floor.\<close>

definition stepPairs :: "rcHeightfield \<Rightarrow> int \<Rightarrow> nat \<Rightarrow> nat \<Rightarrow> (nat \<times> nat) list" where
  "stepPairs hf walkableClimb currentIdx neighborIdx =
     concat (map (\<lambda>i. map (\<lambda>j. (i, j))
                    (filter (\<lambda>j. area (spanAt hf (neighborIdx, j)) \<noteq> RC_NULL_AREA \<and>
                                  \<bar>int (smax (spanAt hf (currentIdx, i))) - int (smax (spanAt hf (neighborIdx, j)))\<bar>
                                    \<le> walkableClimb)
                       [0..<length (columnAt hf neighborIdx)]))
               (takeWhile (\<lambda>i. area (spanAt hf (currentIdx, i)) \<noteq> RC_NULL_AREA)
                  [0..<length (columnAt hf currentIdx)]))"

text \<open>The sample step as claim C7 words it: every walkable span of the current column is
  taken, and after the first append for a current span the scan goes on with the next
  span of the current column.\<close>

fun scanNeighborSpansAsClaimed :: "rcHeightfield \<Rightarrow> int \<Rightarrow> spanRef \<Rightarrow> nat \<Rightarrow> nat list \<Rightarrow> spanRef list list \<Rightarrow> spanRef list list" where
  "scanNeighborSpansAsClaimed hf walkableClimb CurrentSpan neighborIdx [] work = work"
| "scanNeighborSpansAsClaimed hf walkableClimb CurrentSpan neighborIdx (j # js) work =
     (if area (spanAt hf (neighborIdx, j)) \<noteq> RC_NULL_AREA \<and>
         \<bar>int (smax (spanAt hf CurrentSpan)) - int (smax (spanAt hf (neighborIdx, j)))\<bar> \<le> walkableClimb
      then extendFirst CurrentSpan (neighborIdx, j) work
      else scanNeighborSpansAsClaimed hf walkableClimb CurrentSpan neighborIdx js work)"

definition sampleStepAsClaimed :: "rcHeightfield \<Rightarrow> int \<Rightarrow> nat \<Rightarrow> nat \<Rightarrow> spanRef list list \<Rightarrow> spanRef list list" where
  "sampleStepAsClaimed hf walkableClimb currentIdx neighborIdx work =
     fold (\<lambda>i. scanNeighborSpansAsClaimed hf walkableClimb (currentIdx, i) neighborIdx
                 [0..<length (columnAt hf neighborIdx)])
       (filter (\<lambda>i. area (spanAt hf (currentIdx, i)) \<noteq> RC_NULL_AREA) [0..<length (columnAt hf currentIdx)])
       work"

text \<open>
  The test of \<open>_EvaluateRuggedArea\<close> on one chain, read on a heightfield: the first span
  has the area \<open>RC_WALKABLE_AREA\<close>, the chain has a step, and the single-precision
  quotient of the sum of the step heights by the number of steps is at least the
  threshold.
\<close>

definition chainRugged :: "rat \<Rightarrow> rcHeightfield \<Rightarrow> spanRef list \<Rightarrow> bool" where
  "chainRugged SlopeThreshold hf ch \<longleftrightarrow>
     area (spanAt hf (hd ch)) = RC_WALKABLE_AREA \<and> 1 < length ch \<and>
     float32 (float32 (of_int (sum_list (stepHeights hf ch))) / float32 (of_nat (length ch - 1)))
       \<ge> SlopeThreshold"

text \<open>The floors of the spans of a neighbour column that overlap the current span by
  \<open>walkableHeight\<close> or more, from the bottom.\<close>

definition qualifyingFloors :: "int \<Rightarrow> int \<Rightarrow> int \<Rightarrow> rcSpan list \<Rightarrow> int list" where
  "qualifyingFloors walkableHeight spanFloor spanCeiling col =
     map (\<lambda>j. int (smax (col ! j)))
       (filter (\<lambda>j. \<not> overlap spanFloor spanCeiling col j < walkableHeight) [0..<length col])"

text \<open>The same over the neighbour columns inside the grid, in the order of the
  directions.\<close>

definition neighborFloors :: "rcHeightfield \<Rightarrow> int \<Rightarrow> nat \<Rightarrow> nat \<Rightarrow> nat \<Rightarrow> nat \<Rightarrow> int \<Rightarrow> int \<Rightarrow> nat list \<Rightarrow> int list" where
  "neighborFloors hf walkableHeight xSize zSize x z spanFloor spanCeiling ds =
     concat (map (\<lambda>d. qualifyingFloors walkableHeight spanFloor spanCeiling (neighborColumn hf xSize x z d))
               (filter (\<lambda>d. \<not> neighborOutOfBounds xSize zSize x z d) ds))"

text \<open>
  The decision of \<open>rcFilterLedgeSpans\<close> for a walkable span, without the order of the
  scan: some direction leaves the grid or finds the open gap beneath the neighbour
  column; or some overlapping neighbour span lies more than \<open>walkableClimb\<close> below the
  span; or the floors within \<open>walkableClimb\<close> of the span, its own among them, spread
  over more than \<open>walkableClimb\<close>.
\<close>

definition ledgeCriterion :: "rcHeightfield \<Rightarrow> int \<Rightarrow> int \<Rightarrow> nat \<Rightarrow> nat \<Rightarrow> nat \<Rightarrow> bool" where
  "ledgeCriterion hf walkableHeight walkableClimb x z i \<longleftrightarrow>
     (let spanFloor = int (smax (columnAt hf (x + z * width hf) ! i));
          spanCeiling = nextSmin (columnAt hf (x + z * width hf)) i;
          floors = neighborFloors hf walkableHeight (width hf) (height hf) x z spanFloor spanCeiling [0, 1, 2, 3];
          traversable = filter (\<lambda>nf. \<bar>nf - spanFloor\<bar> \<le> walkableClimb) floors
      in (\<exists>d\<in>{0, 1, 2, 3}.
            neighborOutOfBounds (width hf) (height hf) x z d \<or>
            min spanCeiling (subFloorCeiling (neighborColumn hf (width hf) x z d)) - spanFloor \<ge> walkableHeight) \<or>
         (\<exists>nf\<in>set floors. nf - spanFloor < - walkableClimb) \<or>
         Max (set (spanFloor # traversable)) - Min (set (spanFloor # traversable)) > walkableClimb)"

section \<open>Definitions for the proofs\<close>

text \<open>What no filter changes: the grid size and, column by column, the height interval
  of every span.\<close>

definition shape :: "rcHeightfield \<Rightarrow> nat \<times> nat \<times> (nat \<times> nat) list list" where
  "shape hf = (width hf, height hf, map (map (\<lambda>s. (smin s, smax s))) (spans hf))"

text \<open>
  \<open>relabels F hf0 T S\<close>: on every heightfield with the shape of \<open>hf0\<close>, the
  transformer \<open>T\<close> keeps the shape, gives a span at \<open>(x, z, i)\<close> in \<open>S\<close> the area
  \<open>F x z i a\<close>, with \<open>a\<close> the area it had, and leaves every other area as it is.
\<close>

definition relabels :: "(nat \<Rightarrow> nat \<Rightarrow> nat \<Rightarrow> nat \<Rightarrow> nat) \<Rightarrow> rcHeightfield \<Rightarrow> (rcHeightfield \<Rightarrow> rcHeightfield) \<Rightarrow> (nat \<times> nat \<times> nat) set \<Rightarrow> bool" where
  "relabels F hf0 T S \<longleftrightarrow>
     (\<forall>hf. shape hf = shape hf0 \<longrightarrow>
        shape (T hf) = shape hf0 \<and>
        (\<forall>x z i. x < width hf0 \<longrightarrow>
           area (spanAt (T hf) (x + z * width hf0, i)) =
             (if (x, z, i) \<in> S then F x z i (area (spanAt hf (x + z * width hf0, i)))
              else area (spanAt hf (x + z * width hf0, i)))))"

text \<open>The area \<open>rcFilterLedgeSpans\<close> leaves a span with, from the area \<open>a\<close> it had.\<close>

definition ledgeFinal :: "rcHeightfield \<Rightarrow> int \<Rightarrow> int \<Rightarrow> nat \<Rightarrow> nat \<Rightarrow> nat \<Rightarrow> nat \<Rightarrow> nat" where
  "ledgeFinal hf walkableHeight walkableClimb x z i a =
     (if a \<noteq> RC_NULL_AREA \<and> ledgeDemotes hf walkableHeight walkableClimb x z i then RC_NULL_AREA else a)"

text \<open>The area \<open>rcFilterWalkableLowHeightSpans\<close> leaves a span with, from the area
  \<open>a\<close> it had.\<close>

definition lowHeightFinal :: "rcHeightfield \<Rightarrow> int \<Rightarrow> nat \<Rightarrow> nat \<Rightarrow> nat \<Rightarrow> nat \<Rightarrow> nat" where
  "lowHeightFinal hf walkableHeight x z i a =
     (if nextSmin (columnAt hf (x + z * width hf)) i - int (smax (columnAt hf (x + z * width hf) ! i)) < walkableHeight
      then RC_NULL_AREA else a)"

text \<open>A column rewritten on its own, as \<open>lowHangingColumnAt\<close> does.\<close>

definition colUpd :: "(rcSpan list \<Rightarrow> rcSpan list) \<Rightarrow> nat \<Rightarrow> rcHeightfield \<Rightarrow> rcHeightfield" where
  "colUpd g c hf = hf\<lparr>spans := (spans hf)[c := g (columnAt hf c)]\<rparr>"

text \<open>\<open>grownBy ni old new\<close>: the working list \<open>new\<close> has the chains of \<open>old\<close>, each
  as it was or with one span of column \<open>ni\<close> appended.\<close>

definition grownBy :: "nat \<Rightarrow> spanRef list list \<Rightarrow> spanRef list list \<Rightarrow> bool" where
  "grownBy ni old new \<longleftrightarrow>
     length new = length old \<and>
     (\<forall>k<length old. new ! k = old ! k \<or> (\<exists>j. new ! k = old ! k @ [(ni, j)]))"

text \<open>\<open>chainsFrom hf c0 i0 work\<close>: chain \<open>k\<close> of the working list starts with the span at
  position \<open>i0 + k\<close> of column \<open>c0\<close>, its other spans are in other columns, and all its
  handles refer to spans of the heightfield.\<close>

definition chainsFrom :: "rcHeightfield \<Rightarrow> nat \<Rightarrow> nat \<Rightarrow> spanRef list list \<Rightarrow> bool" where
  "chainsFrom hf c0 i0 work \<longleftrightarrow>
     (\<forall>k<length work. work ! k \<noteq> [] \<and> hd (work ! k) = (c0, i0 + k) \<and>
        (\<forall>r\<in>set (tl (work ! k)). fst r \<noteq> c0) \<and>
        (\<forall>r\<in>set (work ! k). snd r < length (columnAt hf (fst r))))"

section \<open>Example heightfields\<close>

text \<open>Two grids of 3 by 3 columns; the centre column has two spans. In the first the
  column at \<open>(0, 1)\<close> is empty.\<close>

definition ledgeExample :: rcHeightfield where
  "ledgeExample =
     \<lparr>width = 3, height = 3,
      spans = [[\<lparr>smin = 0, smax = 10, area = 1\<rparr>], [\<lparr>smin = 0, smax = 10, area = 1\<rparr>], [\<lparr>smin = 0, smax = 10, area = 1\<rparr>],
               [], [\<lparr>smin = 0, smax = 10, area = 1\<rparr>, \<lparr>smin = 12, smax = 20, area = 1\<rparr>], [\<lparr>smin = 0, smax = 10, area = 1\<rparr>],
               [\<lparr>smin = 0, smax = 10, area = 1\<rparr>], [\<lparr>smin = 0, smax = 10, area = 1\<rparr>], [\<lparr>smin = 0, smax = 10, area = 1\<rparr>]]\<rparr>"

definition ledgeExample2 :: rcHeightfield where
  "ledgeExample2 =
     \<lparr>width = 3, height = 3,
      spans = [[\<lparr>smin = 0, smax = 10, area = 1\<rparr>], [\<lparr>smin = 0, smax = 10, area = 1\<rparr>], [\<lparr>smin = 0, smax = 10, area = 1\<rparr>],
               [\<lparr>smin = 0, smax = 10, area = 1\<rparr>], [\<lparr>smin = 0, smax = 10, area = 1\<rparr>, \<lparr>smin = 12, smax = 20, area = 1\<rparr>], [\<lparr>smin = 0, smax = 10, area = 1\<rparr>],
               [\<lparr>smin = 0, smax = 10, area = 1\<rparr>], [\<lparr>smin = 0, smax = 10, area = 1\<rparr>], [\<lparr>smin = 0, smax = 10, area = 1\<rparr>]]\<rparr>"

text \<open>The second grid again, with other areas.\<close>

definition ledgeExample3 :: rcHeightfield where
  "ledgeExample3 =
     \<lparr>width = 3, height = 3,
      spans = [[\<lparr>smin = 0, smax = 10, area = 0\<rparr>], [\<lparr>smin = 0, smax = 10, area = 0\<rparr>], [\<lparr>smin = 0, smax = 10, area = 2\<rparr>],
               [\<lparr>smin = 0, smax = 10, area = 0\<rparr>], [\<lparr>smin = 0, smax = 10, area = 3\<rparr>, \<lparr>smin = 12, smax = 20, area = 0\<rparr>], [\<lparr>smin = 0, smax = 10, area = 4\<rparr>],
               [\<lparr>smin = 0, smax = 10, area = 5\<rparr>], [\<lparr>smin = 0, smax = 10, area = 0\<rparr>], [\<lparr>smin = 0, smax = 10, area = 6\<rparr>]]\<rparr>"

text \<open>One column with a walkable span and two thin spans that are not walkable on top
  of it.\<close>

definition lowHangingExample :: rcHeightfield where
  "lowHangingExample =
     \<lparr>width = 1, height = 1,
      spans = [[\<lparr>smin = 0, smax = 10, area = 5\<rparr>, \<lparr>smin = 10, smax = 11, area = 0\<rparr>,
                \<lparr>smin = 11, smax = 12, area = 0\<rparr>]]\<rparr>"

text \<open>Two columns with one step of height 2.\<close>

definition stepExample :: rcHeightfield where
  "stepExample =
     \<lparr>width = 2, height = 1,
      spans = [[\<lparr>smin = 0, smax = 10, area = 63\<rparr>], [\<lparr>smin = 0, smax = 12, area = 63\<rparr>]]\<rparr>"

text \<open>Three columns along x: two chains from column 0 meet in the one span of column 1,
  and column 2 has two spans within reach of it.\<close>

definition convergeExample :: rcHeightfield where
  "convergeExample =
     \<lparr>width = 3, height = 1,
      spans = [[\<lparr>smin = 0, smax = 10, area = 63\<rparr>, \<lparr>smin = 11, smax = 12, area = 63\<rparr>],
               [\<lparr>smin = 0, smax = 11, area = 63\<rparr>],
               [\<lparr>smin = 0, smax = 10, area = 63\<rparr>, \<lparr>smin = 11, smax = 12, area = 63\<rparr>]]\<rparr>"

text \<open>Two columns along x: in column 0 a span that is not walkable lies between two
  walkable ones.\<close>

definition blockedExample :: rcHeightfield where
  "blockedExample =
     \<lparr>width = 2, height = 1,
      spans = [[\<lparr>smin = 0, smax = 1, area = 63\<rparr>, \<lparr>smin = 5, smax = 6, area = 0\<rparr>,
                \<lparr>smin = 10, smax = 20, area = 63\<rparr>],
               [\<lparr>smin = 0, smax = 20, area = 63\<rparr>]]\<rparr>"

text \<open>Six columns along x, level but for one step of height 1 at the end.\<close>

definition gentleExample :: rcHeightfield where
  "gentleExample =
     \<lparr>width = 6, height = 1,
      spans = [[\<lparr>smin = 0, smax = 10, area = 63\<rparr>], [\<lparr>smin = 0, smax = 10, area = 63\<rparr>],
               [\<lparr>smin = 0, smax = 10, area = 63\<rparr>], [\<lparr>smin = 0, smax = 10, area = 63\<rparr>],
               [\<lparr>smin = 0, smax = 10, area = 63\<rparr>], [\<lparr>smin = 0, smax = 11, area = 63\<rparr>]]\<rparr>"

text \<open>Two rows of two columns: level along x, with a step of height 2 along z.\<close>

definition turnExample :: rcHeightfield where
  "turnExample =
     \<lparr>width = 2, height = 2,
      spans = [[\<lparr>smin = 0, smax = 10, area = 63\<rparr>], [\<lparr>smin = 0, smax = 10, area = 63\<rparr>],
               [\<lparr>smin = 0, smax = 12, area = 63\<rparr>], [\<lparr>smin = 0, smax = 12, area = 63\<rparr>]]\<rparr>"

text \<open>The scenarios of claim C4: a line of 10 columns along x whose floors rise by 2, the
  same line with every area replaced by \<open>a\<close>, and two columns with a step of height 1.\<close>

definition lineExample :: rcHeightfield where
  "lineExample =
     \<lparr>width = 10, height = 1,
      spans = map (\<lambda>k. [\<lparr>smin = 0, smax = 2 * k, area = RC_WALKABLE_AREA\<rparr>]) [0..<10]\<rparr>"

definition lineRelabeled :: "nat \<Rightarrow> rcHeightfield" where
  "lineRelabeled a =
     \<lparr>width = 10, height = 1,
      spans = map (\<lambda>k. [\<lparr>smin = 0, smax = 2 * k, area = a\<rparr>]) [0..<10]\<rparr>"

definition singleStepExample :: rcHeightfield where
  "singleStepExample =
     \<lparr>width = 2, height = 1,
      spans = [[\<lparr>smin = 0, smax = 10, area = RC_WALKABLE_AREA\<rparr>], [\<lparr>smin = 0, smax = 11, area = RC_WALKABLE_AREA\<rparr>]]\<rparr>"

section \<open>Writing an area keeps the shape\<close>

lemma columnAt_setArea:
  "columnAt (setArea hf c i a) c' =
     (if c' = c then (columnAt hf c)[i := (columnAt hf c ! i)\<lparr>area := a\<rparr>] else columnAt hf c')"
  by (auto simp: columnAt_def setArea_def)

lemma width_setArea [simp]: "width (setArea hf c i a) = width hf"
  by (simp add: setArea_def)

lemma height_setArea [simp]: "height (setArea hf c i a) = height hf"
  by (simp add: setArea_def)

lemma length_spans_setArea [simp]: "length (spans (setArea hf c i a)) = length (spans hf)"
  by (simp add: setArea_def)

lemma length_columnAt_setArea [simp]: "length (columnAt (setArea hf c i a) c') = length (columnAt hf c')"
  by (simp add: columnAt_setArea)

lemma spans_as_columns: "spans hf = map (columnAt hf) [0..<length (spans hf)]"
  by (rule nth_equalityI) (simp_all add: columnAt_def)

lemma shape_columns:
  "shape hf = (width hf, height hf, map (\<lambda>c. map (\<lambda>s. (smin s, smax s)) (columnAt hf c)) [0..<length (spans hf)])"
  unfolding shape_def by (subst spans_as_columns) (simp add: o_def)

lemma geom_update_area:
  "map (\<lambda>s. (smin s, smax s)) (col[i := (col ! i)\<lparr>area := a\<rparr>]) = map (\<lambda>s. (smin s, smax s)) col"
proof (rule nth_equalityI)
  fix j assume "j < length (map (\<lambda>s. (smin s, smax s)) (col[i := (col ! i)\<lparr>area := a\<rparr>]))"
  then show "map (\<lambda>s. (smin s, smax s)) (col[i := (col ! i)\<lparr>area := a\<rparr>]) ! j = map (\<lambda>s. (smin s, smax s)) col ! j"
    by (cases "j = i") simp_all
qed simp

lemma shape_setArea [simp]: "shape (setArea hf c i a) = shape hf"
  by (simp add: shape_columns columnAt_setArea geom_update_area)

lemma area_spanAt_setArea:
  "area (spanAt (setArea hf c i a) (c', i')) =
     (if c' = c \<and> i' = i \<and> i < length (columnAt hf c) then a else area (spanAt hf (c', i')))"
proof (cases "c' = c \<and> i' = i")
  case True
  then show ?thesis by (simp add: spanAt_def columnAt_setArea list_update_beyond not_less)
next
  case False
  then show ?thesis by (auto simp: spanAt_def columnAt_setArea)
qed

lemma shape_width: "shape hf = shape hf' \<Longrightarrow> width hf = width hf'"
  by (simp add: shape_def)

lemma shape_height: "shape hf = shape hf' \<Longrightarrow> height hf = height hf'"
  by (simp add: shape_def)

lemma shape_length_spans: "shape hf = shape hf' \<Longrightarrow> length (spans hf) = length (spans hf')"
  by (auto simp: shape_def dest: map_eq_imp_length_eq)

lemma shape_column:
  assumes "shape hf = shape hf'"
  shows "map (\<lambda>s. (smin s, smax s)) (columnAt hf c) = map (\<lambda>s. (smin s, smax s)) (columnAt hf' c)"
proof -
  have len: "length (spans hf) = length (spans hf')"
    using assms by (rule shape_length_spans)
  have "map (map (\<lambda>s. (smin s, smax s))) (spans hf) = map (map (\<lambda>s. (smin s, smax s))) (spans hf')"
    using assms by (simp add: shape_def)
  then have "map (map (\<lambda>s. (smin s, smax s))) (spans hf) ! c = map (map (\<lambda>s. (smin s, smax s))) (spans hf') ! c"
    by simp
  then have "c < length (spans hf) \<Longrightarrow>
      map (\<lambda>s. (smin s, smax s)) (spans hf ! c) = map (\<lambda>s. (smin s, smax s)) (spans hf' ! c)"
    using len by simp
  then show ?thesis
    using len by (simp add: columnAt_def)
qed

lemma shape_length_column: "shape hf = shape hf' \<Longrightarrow> length (columnAt hf c) = length (columnAt hf' c)"
  by (drule shape_column [where c = c]) (rule map_eq_imp_length_eq)

section \<open>The neighbour scan reads the shape only\<close>

lemma geom_nth:
  assumes "map (\<lambda>s. (smin s, smax s)) col = map (\<lambda>s. (smin s, smax s)) col'" "i < length col"
  shows "smin (col ! i) = smin (col' ! i)" "smax (col ! i) = smax (col' ! i)"
proof -
  have len: "length col = length col'"
    using assms(1) by (rule map_eq_imp_length_eq)
  have "map (\<lambda>s. (smin s, smax s)) col ! i = map (\<lambda>s. (smin s, smax s)) col' ! i"
    using assms(1) by simp
  then have "(smin (col ! i), smax (col ! i)) = (smin (col' ! i), smax (col' ! i))"
    using assms(2) len by simp
  then show "smin (col ! i) = smin (col' ! i)" "smax (col ! i) = smax (col' ! i)"
    by simp_all
qed

lemma geom_nextSmin:
  assumes "map (\<lambda>s. (smin s, smax s)) col = map (\<lambda>s. (smin s, smax s)) col'"
  shows "nextSmin col i = nextSmin col' i"
proof -
  have len: "length col = length col'"
    using assms by (rule map_eq_imp_length_eq)
  show ?thesis
    using len geom_nth(1) [OF assms, of "Suc i"] by (simp add: nextSmin_def)
qed

lemma geom_head:
  assumes "map (\<lambda>s. (smin s, smax s)) col = map (\<lambda>s. (smin s, smax s)) col'"
  shows "(case col of [] \<Rightarrow> MAX_HEIGHTFIELD_HEIGHT | s # _ \<Rightarrow> int (smin s)) =
         (case col' of [] \<Rightarrow> MAX_HEIGHTFIELD_HEIGHT | s # _ \<Rightarrow> int (smin s))"
  using assms by (cases col; cases col') auto

lemma scanNeighborColumn_geom:
  "map (\<lambda>s. (smin s, smax s)) ns = map (\<lambda>s. (smin s, smax s)) ns' \<Longrightarrow>
   scanNeighborColumn wh wc f c ns acc = scanNeighborColumn wh wc f c ns' acc"
proof (induction ns arbitrary: ns' acc)
  case Nil
  then show ?case by simp
next
  case (Cons n ns)
  from Cons.prems obtain n' ns'' where ns': "ns' = n' # ns''"
    and h: "smin n = smin n'" "smax n = smax n'"
    and t: "map (\<lambda>s. (smin s, smax s)) ns = map (\<lambda>s. (smin s, smax s)) ns''"
    by (cases ns') auto
  obtain l lo hi where acc: "acc = (l, lo, hi)"
    by (cases acc)
  note IH = Cons.IH [OF t]
  show ?case
    unfolding ns' acc by (simp add: Let_def h geom_head [OF t] IH)
qed

lemma scanDirections_shape:
  "shape hf = shape hf' \<Longrightarrow>
   scanDirections hf wh wc xs zs x z f c ds acc = scanDirections hf' wh wc xs zs x z f c ds acc"
proof (induction ds arbitrary: acc)
  case Nil
  then show ?case by simp
next
  case (Cons d ds)
  obtain l lo hi where acc: "acc = (l, lo, hi)"
    by (cases acc)
  note g = shape_column [OF Cons.prems]
  show ?case
    unfolding acc
    by (simp add: Let_def Cons.IH [OF Cons.prems] geom_head [OF g] scanNeighborColumn_geom [OF g])
qed

lemma ledgeScan_shape:
  assumes "shape hf = shape hf'" "i < length (columnAt hf (x + z * xs))"
  shows "ledgeScan hf wh wc xs zs x z i = ledgeScan hf' wh wc xs zs x z i"
proof -
  have a: "smax (columnAt hf (x + z * xs) ! i) = smax (columnAt hf' (x + z * xs) ! i)"
    by (rule geom_nth(2) [OF shape_column [OF assms(1)] assms(2)])
  have b: "nextSmin (columnAt hf (x + z * xs)) i = nextSmin (columnAt hf' (x + z * xs)) i"
    by (rule geom_nextSmin [OF shape_column [OF assms(1)]])
  show ?thesis
    unfolding ledgeScan_def Let_def a b by (rule scanDirections_shape [OF assms(1)])
qed

section \<open>Passes that relabel span by span\<close>

lemma relabelsI:
  assumes "\<And>hf. shape hf = shape hf0 \<Longrightarrow> shape (T hf) = shape hf0"
    and "\<And>hf x z i. shape hf = shape hf0 \<Longrightarrow> x < width hf0 \<Longrightarrow>
           area (spanAt (T hf) (x + z * width hf0, i)) =
             (if (x, z, i) \<in> S then F x z i (area (spanAt hf (x + z * width hf0, i)))
              else area (spanAt hf (x + z * width hf0, i)))"
  shows "relabels F hf0 T S"
  unfolding relabels_def using assms by blast

lemma relabels_shape: "relabels F hf0 T S \<Longrightarrow> shape hf = shape hf0 \<Longrightarrow> shape (T hf) = shape hf0"
  unfolding relabels_def by blast

lemma relabels_area:
  "relabels F hf0 T S \<Longrightarrow> shape hf = shape hf0 \<Longrightarrow> x < width hf0 \<Longrightarrow>
   area (spanAt (T hf) (x + z * width hf0, i)) =
     (if (x, z, i) \<in> S then F x z i (area (spanAt hf (x + z * width hf0, i)))
      else area (spanAt hf (x + z * width hf0, i)))"
  unfolding relabels_def by blast

lemma relabels_id: "relabels F hf0 (\<lambda>hf. hf) {}"
  by (rule relabelsI) simp_all

lemma relabels_comp:
  assumes 1: "relabels F hf0 T1 S1" and 2: "relabels F hf0 T2 S2"
    and idem: "\<And>x z i a. F x z i (F x z i a) = F x z i a"
  shows "relabels F hf0 (\<lambda>hf. T2 (T1 hf)) (S1 \<union> S2)"
proof (rule relabelsI)
  fix hf assume s: "shape hf = shape hf0"
  show "shape (T2 (T1 hf)) = shape hf0"
    by (rule relabels_shape [OF 2 relabels_shape [OF 1 s]])
next
  fix hf x z i assume s: "shape hf = shape hf0" and x: "x < width hf0"
  show "area (spanAt (T2 (T1 hf)) (x + z * width hf0, i)) =
          (if (x, z, i) \<in> S1 \<union> S2 then F x z i (area (spanAt hf (x + z * width hf0, i)))
           else area (spanAt hf (x + z * width hf0, i)))"
    by (simp add: relabels_area [OF 2 relabels_shape [OF 1 s] x] relabels_area [OF 1 s x] idem)
qed

lemma relabels_cong:
  assumes "relabels F hf0 T S" and "\<And>hf. shape hf = shape hf0 \<Longrightarrow> T' hf = T hf"
  shows "relabels F hf0 T' S"
  using assms unfolding relabels_def by simp

lemma relabels_fold:
  assumes "\<And>a. a \<in> set as \<Longrightarrow> relabels F hf0 (T a) (S a)"
    and idem: "\<And>x z i a. F x z i (F x z i a) = F x z i a"
  shows "relabels F hf0 (fold T as) (\<Union>a\<in>set as. S a)"
  using assms(1)
proof (induction as rule: rev_induct)
  case Nil
  show ?case using relabels_id [of F hf0] by simp
next
  case (snoc a as)
  have 1: "relabels F hf0 (fold T as) (\<Union>a\<in>set as. S a)"
    by (rule snoc.IH) (simp add: snoc.prems)
  have 2: "relabels F hf0 (T a) (S a)"
    by (rule snoc.prems) simp
  have "relabels F hf0 (\<lambda>hf. T a (fold T as hf)) ((\<Union>a\<in>set as. S a) \<union> S a)"
    by (rule relabels_comp [OF 1 2 idem])
  moreover have "(\<lambda>hf. T a (fold T as hf)) = fold T (as @ [a])"
    by (simp add: fun_eq_iff)
  moreover have "(\<Union>a\<in>set as. S a) \<union> S a = (\<Union>a\<in>set (as @ [a]). S a)"
    by auto
  ultimately show ?case by simp
qed

lemma loc_inj:
  fixes x :: nat
  assumes "x < w" "x' < w"
  shows "(x' + z' * w = x + z * w) = (x' = x \<and> z' = z)"
proof
  assume e: "x' + z' * w = x + z * w"
  have "(x' + z' * w) mod w = x'" "(x + z * w) mod w = x"
    using assms by simp_all
  then have x: "x' = x" using e by simp
  have "(x' + z' * w) div w = z'" "(x + z * w) div w = z"
    using assms by simp_all
  then have "z' = z" using e by simp
  with x show "x' = x \<and> z' = z" by simp
qed simp

lemma relabels_fold_upt:
  assumes "\<And>a. a < n \<Longrightarrow> relabels F hf0 (T a) (S a)"
    and idem: "\<And>x z i a. F x z i (F x z i a) = F x z i a"
  shows "relabels F hf0 (fold T [0..<n]) (\<Union>a\<in>{0..<n}. S a)"
proof -
  have "relabels F hf0 (fold T [0..<n]) (\<Union>a\<in>set [0..<n]. S a)"
  proof (rule relabels_fold)
    fix a assume "a \<in> set [0..<n]"
    then have "a < n" by simp
    then show "relabels F hf0 (T a) (S a)" by (rule assms(1))
  qed (rule idem)
  then show ?thesis by (simp only: set_upt)
qed

lemma relabels_column:
  assumes step: "\<And>i. i < length (columnAt hf0 (x + z * width hf0)) \<Longrightarrow> relabels F hf0 (stp i) {(x, z, i)}"
    and idem: "\<And>x z i a. F x z i (F x z i a) = F x z i a"
  shows "relabels F hf0 (\<lambda>hf. fold stp [0..<length (columnAt hf (x + z * width hf0))] hf)
           (\<Union>i\<in>{0..<length (columnAt hf0 (x + z * width hf0))}. {(x, z, i)})"
proof -
  have "relabels F hf0 (fold stp [0..<length (columnAt hf0 (x + z * width hf0))])
          (\<Union>i\<in>{0..<length (columnAt hf0 (x + z * width hf0))}. {(x, z, i)})"
    by (rule relabels_fold_upt [OF step idem])
  then show ?thesis
  proof (rule relabels_cong)
    fix hf assume "shape hf = shape hf0"
    then have "length (columnAt hf (x + z * width hf0)) = length (columnAt hf0 (x + z * width hf0))"
      by (rule shape_length_column)
    then show "fold stp [0..<length (columnAt hf (x + z * width hf0))] hf =
        fold stp [0..<length (columnAt hf0 (x + z * width hf0))] hf"
      by simp
  qed
qed

lemma relabels_pass:
  assumes step: "\<And>x z i. x < width hf0 \<Longrightarrow> i < length (columnAt hf0 (x + z * width hf0)) \<Longrightarrow>
                   relabels F hf0 (stp x z i) {(x, z, i)}"
    and idem: "\<And>x z i a. F x z i (F x z i a) = F x z i a"
  shows "relabels F hf0
           (fold (\<lambda>z. fold (\<lambda>x hf. fold (stp x z) [0..<length (columnAt hf (x + z * width hf0))] hf)
                         [0..<width hf0]) [0..<h])
           {(x, z, i). x < width hf0 \<and> z < h \<and> i < length (columnAt hf0 (x + z * width hf0))}"
proof -
  let ?col = "\<lambda>z x hf. fold (stp x z) [0..<length (columnAt hf (x + z * width hf0))] hf"
  let ?C = "\<lambda>z x. (\<Union>i\<in>{0..<length (columnAt hf0 (x + z * width hf0))}. {(x, z, i)})"
  have col: "relabels F hf0 (?col z x) (?C z x)" if "x < width hf0" for x z
    by (rule relabels_column [OF step [OF that] idem])
  have row: "relabels F hf0 (fold (?col z) [0..<width hf0]) (\<Union>x\<in>{0..<width hf0}. ?C z x)" for z
    by (rule relabels_fold_upt [OF col idem])
  have "relabels F hf0 (fold (\<lambda>z. fold (?col z) [0..<width hf0]) [0..<h])
          (\<Union>z\<in>{0..<h}. \<Union>x\<in>{0..<width hf0}. ?C z x)"
    by (rule relabels_fold_upt [OF row idem])
  moreover have "(\<Union>z\<in>{0..<h}. \<Union>x\<in>{0..<width hf0}. ?C z x) =
      {(x, z, i). x < width hf0 \<and> z < h \<and> i < length (columnAt hf0 (x + z * width hf0))}"
    by auto
  ultimately show ?thesis by simp
qed

section \<open>The ledge pass, span by span\<close>

lemma area_columnAt_setArea:
  "area (columnAt (setArea hf c i a) c' ! i') =
     (if c' = c \<and> i' = i \<and> i < length (columnAt hf c) then a else area (columnAt hf c' ! i'))"
  using area_spanAt_setArea [of hf c i a c' i'] by (simp add: spanAt_def)

lemma ledgeSpan_alt:
  "ledgeSpan wh wc xs zs x z i hf =
     (if area (columnAt hf (x + z * xs) ! i) \<noteq> RC_NULL_AREA \<and>
         (case ledgeScan hf wh wc xs zs x z i of (lnfd, lo, hi) \<Rightarrow> lnfd < - wc \<or> hi - lo > wc)
      then setArea hf (x + z * xs) i RC_NULL_AREA else hf)"
  by (simp add: ledgeSpan_def split: prod.splits)

lemma setArea_relabels:
  assumes x: "x < width hf0" and i: "i < length (columnAt hf0 (x + z * width hf0))"
    and T: "\<And>hf. shape hf = shape hf0 \<Longrightarrow>
              T hf = (if F x z i (area (columnAt hf (x + z * width hf0) ! i)) = area (columnAt hf (x + z * width hf0) ! i)
                      then hf else setArea hf (x + z * width hf0) i (F x z i (area (columnAt hf (x + z * width hf0) ! i))))"
  shows "relabels F hf0 T {(x, z, i)}"
proof (rule relabelsI)
  fix hf assume s: "shape hf = shape hf0"
  show "shape (T hf) = shape hf0"
    by (simp add: T [OF s] s)
next
  fix hf x' z' i' assume s: "shape hf = shape hf0" and x': "x' < width hf0"
  have i2: "i < length (columnAt hf (x + z * width hf0))"
    using i shape_length_column [OF s] by simp
  have same: "(x' + z' * width hf0 = x + z * width hf0 \<and> i' = i) = ((x', z', i') \<in> {(x, z, i)})"
    using loc_inj [OF x x'] by auto
  show "area (spanAt (T hf) (x' + z' * width hf0, i')) =
          (if (x', z', i') \<in> {(x, z, i)}
           then F x' z' i' (area (spanAt hf (x' + z' * width hf0, i')))
           else area (spanAt hf (x' + z' * width hf0, i')))"
  proof (cases "(x', z', i') \<in> {(x, z, i)}")
    case True
    then have e: "x' = x" "z' = z" "i' = i" by simp_all
    show ?thesis
      unfolding e by (simp add: T [OF s] spanAt_def area_columnAt_setArea i2)
  next
    case False
    then have "\<not> (x' + z' * width hf0 = x + z * width hf0 \<and> i' = i)"
      using same by simp
    then show ?thesis
      using False by (auto simp: T [OF s] spanAt_def area_columnAt_setArea)
  qed
qed

lemma ledgeSpan_relabels:
  assumes x: "x < width hf0" and i: "i < length (columnAt hf0 (x + z * width hf0))"
  shows "relabels (ledgeFinal hf0 wh wc) hf0 (ledgeSpan wh wc (width hf0) (height hf0) x z i) {(x, z, i)}"
proof (rule setArea_relabels [OF x i])
  fix hf assume s: "shape hf = shape hf0"
  have i2: "i < length (columnAt hf (x + z * width hf0))"
    using i shape_length_column [OF s] by simp
  have scan: "ledgeScan hf wh wc (width hf0) (height hf0) x z i =
      ledgeScan hf0 wh wc (width hf0) (height hf0) x z i"
    by (rule ledgeScan_shape [OF s i2])
  show "ledgeSpan wh wc (width hf0) (height hf0) x z i hf =
      (if ledgeFinal hf0 wh wc x z i (area (columnAt hf (x + z * width hf0) ! i)) =
          area (columnAt hf (x + z * width hf0) ! i)
       then hf
       else setArea hf (x + z * width hf0) i
              (ledgeFinal hf0 wh wc x z i (area (columnAt hf (x + z * width hf0) ! i))))"
    unfolding ledgeSpan_alt scan by (simp add: ledgeFinal_def ledgeDemotes_def)
qed

lemma ledgeFinal_idem: "ledgeFinal hf wh wc x z i (ledgeFinal hf wh wc x z i a) = ledgeFinal hf wh wc x z i a"
  by (simp add: ledgeFinal_def)

lemma rcFilterLedgeSpans_relabels:
  "relabels (ledgeFinal hf wh wc) hf (rcFilterLedgeSpans wh wc)
     {(x, z, i). x < width hf \<and> z < height hf \<and> i < length (columnAt hf (x + z * width hf))}"
proof -
  have "relabels (ledgeFinal hf wh wc) hf
          (fold (\<lambda>z. fold (\<lambda>x h. fold (ledgeSpan wh wc (width hf) (height hf) x z)
                                   [0..<length (columnAt h (x + z * width hf))] h)
                         [0..<width hf]) [0..<height hf])
          {(x, z, i). x < width hf \<and> z < height hf \<and> i < length (columnAt hf (x + z * width hf))}"
    by (rule relabels_pass) (simp_all add: ledgeSpan_relabels ledgeFinal_idem)
  then show ?thesis
  proof (rule relabels_cong)
    fix h assume "shape h = shape hf"
    then have "width h = width hf" "height h = height hf"
      by (simp_all add: shape_def)
    then show "rcFilterLedgeSpans wh wc h =
        fold (\<lambda>z. fold (\<lambda>x h. fold (ledgeSpan wh wc (width hf) (height hf) x z)
                                   [0..<length (columnAt h (x + z * width hf))] h)
                         [0..<width hf]) [0..<height hf] h"
      by (simp add: rcFilterLedgeSpans_def ledgeColumn_def [abs_def] Let_def)
  qed
qed

lemma rcFilterLedgeSpans_shape: "shape (rcFilterLedgeSpans wh wc hf) = shape hf"
  by (rule relabels_shape [OF rcFilterLedgeSpans_relabels]) simp

lemma rcFilterLedgeSpans_area:
  assumes "x < width hf"
  shows "area (spanAt (rcFilterLedgeSpans wh wc hf) (x + z * width hf, i)) =
     (if z < height hf \<and> i < length (columnAt hf (x + z * width hf))
      then ledgeFinal hf wh wc x z i (area (spanAt hf (x + z * width hf, i)))
      else area (spanAt hf (x + z * width hf, i)))"
  using relabels_area [OF rcFilterLedgeSpans_relabels refl assms, of wh wc z i] assms
  by simp

lemma setArea_same: "setArea hf c i (area (columnAt hf c ! i)) = hf"
proof -
  have 1: "(columnAt hf c)[i := (columnAt hf c ! i)\<lparr>area := area (columnAt hf c ! i)\<rparr>] = columnAt hf c"
    by simp
  have 2: "(spans hf)[c := columnAt hf c] = spans hf"
    by (cases "c < length (spans hf)") (simp_all add: columnAt_def list_update_beyond not_less)
  show ?thesis
    unfolding setArea_def 1 2 by simp
qed

lemma span_eqI:
  fixes s t :: rcSpan
  shows "smin s = smin t \<Longrightarrow> smax s = smax t \<Longrightarrow> area s = area t \<Longrightarrow> s = t"
  by simp

lemma hf_eqI:
  assumes s: "shape a = shape b"
    and ar: "\<And>c i. c < length (spans a) \<Longrightarrow> i < length (columnAt a c) \<Longrightarrow>
               area (spanAt a (c, i)) = area (spanAt b (c, i))"
  shows "a = b"
proof -
  have len: "length (spans a) = length (spans b)"
    by (rule shape_length_spans [OF s])
  have col: "columnAt a c = columnAt b c" for c
  proof (rule nth_equalityI)
    show l: "length (columnAt a c) = length (columnAt b c)"
      by (rule shape_length_column [OF s])
    fix i assume i: "i < length (columnAt a c)"
    then have c: "c < length (spans a)"
      by (auto simp: columnAt_def split: if_splits)
    show "columnAt a c ! i = columnAt b c ! i"
    proof (rule span_eqI)
      show "smin (columnAt a c ! i) = smin (columnAt b c ! i)"
        by (rule geom_nth(1) [OF shape_column [OF s] i])
      show "smax (columnAt a c ! i) = smax (columnAt b c ! i)"
        by (rule geom_nth(2) [OF shape_column [OF s] i])
      show "area (columnAt a c ! i) = area (columnAt b c ! i)"
        using ar [OF c i] by (simp add: spanAt_def)
    qed
  qed
  have "spans a = spans b"
    by (subst spans_as_columns, subst (2) spans_as_columns) (simp add: len col)
  moreover have "width a = width b" "height a = height b"
    using s by (simp_all add: shape_def)
  ultimately show ?thesis by simp
qed

lemma decompose_index:
  fixes c :: nat
  assumes "0 < w"
  shows "c mod w < w" "c = c mod w + (c div w) * w"
  using assms by simp_all

lemma rcFilterLedgeSpans_width0: "width hf = 0 \<Longrightarrow> rcFilterLedgeSpans wh wc hf = hf"
proof -
  assume w: "width hf = 0"
  have "fold (\<lambda>z. id) zs h = h" for zs :: "nat list" and h :: rcHeightfield
    by (induction zs) simp_all
  then show ?thesis
    by (simp add: rcFilterLedgeSpans_def w id_def)
qed

lemma ledgeFinal_shape:
  assumes s: "shape hf = shape hf'" and i: "i < length (columnAt hf (x + z * width hf))"
  shows "ledgeFinal hf wh wc x z i a = ledgeFinal hf' wh wc x z i a"
proof -
  have wh: "width hf = width hf'" "height hf = height hf'"
    using s by (simp_all add: shape_def)
  have "ledgeScan hf wh wc (width hf) (height hf) x z i = ledgeScan hf' wh wc (width hf) (height hf) x z i"
    by (rule ledgeScan_shape [OF s i])
  then show ?thesis
    by (simp add: ledgeFinal_def ledgeDemotes_def wh)
qed

section \<open>The low-height pass, span by span\<close>

lemma lowHeightSpan_relabels:
  assumes x: "x < width hf0" and i: "i < length (columnAt hf0 (x + z * width hf0))"
  shows "relabels (lowHeightFinal hf0 wh) hf0 (lowHeightSpan wh (width hf0) x z i) {(x, z, i)}"
proof (rule setArea_relabels [OF x i])
  fix hf assume s: "shape hf = shape hf0"
  have i2: "i < length (columnAt hf (x + z * width hf0))"
    using i shape_length_column [OF s] by simp
  have a: "smax (columnAt hf (x + z * width hf0) ! i) = smax (columnAt hf0 (x + z * width hf0) ! i)"
    by (rule geom_nth(2) [OF shape_column [OF s] i2])
  have b: "nextSmin (columnAt hf (x + z * width hf0)) i = nextSmin (columnAt hf0 (x + z * width hf0)) i"
    by (rule geom_nextSmin [OF shape_column [OF s]])
  show "lowHeightSpan wh (width hf0) x z i hf =
      (if lowHeightFinal hf0 wh x z i (area (columnAt hf (x + z * width hf0) ! i)) =
          area (columnAt hf (x + z * width hf0) ! i)
       then hf
       else setArea hf (x + z * width hf0) i
              (lowHeightFinal hf0 wh x z i (area (columnAt hf (x + z * width hf0) ! i))))"
    unfolding lowHeightSpan_def Let_def a b
    using setArea_same [of hf "x + z * width hf0" i]
    by (auto simp: lowHeightFinal_def)
qed

lemma lowHeightFinal_idem: "lowHeightFinal hf wh x z i (lowHeightFinal hf wh x z i a) = lowHeightFinal hf wh x z i a"
  by (simp add: lowHeightFinal_def)

lemma rcFilterWalkableLowHeightSpans_relabels:
  "relabels (lowHeightFinal hf wh) hf (rcFilterWalkableLowHeightSpans wh)
     {(x, z, i). x < width hf \<and> z < height hf \<and> i < length (columnAt hf (x + z * width hf))}"
proof -
  have "relabels (lowHeightFinal hf wh) hf
          (fold (\<lambda>z. fold (\<lambda>x h. fold (lowHeightSpan wh (width hf) x z)
                                   [0..<length (columnAt h (x + z * width hf))] h)
                         [0..<width hf]) [0..<height hf])
          {(x, z, i). x < width hf \<and> z < height hf \<and> i < length (columnAt hf (x + z * width hf))}"
    by (rule relabels_pass [OF lowHeightSpan_relabels lowHeightFinal_idem])
  then show ?thesis
  proof (rule relabels_cong)
    fix h assume "shape h = shape hf"
    then have "width h = width hf" "height h = height hf"
      by (simp_all add: shape_def)
    then show "rcFilterWalkableLowHeightSpans wh h =
        fold (\<lambda>z. fold (\<lambda>x h. fold (lowHeightSpan wh (width hf) x z)
                                   [0..<length (columnAt h (x + z * width hf))] h)
                         [0..<width hf]) [0..<height hf] h"
      by (simp add: rcFilterWalkableLowHeightSpans_def lowHeightColumn_def [abs_def] Let_def)
  qed
qed

lemma rcFilterWalkableLowHeightSpans_shape: "shape (rcFilterWalkableLowHeightSpans wh hf) = shape hf"
  by (rule relabels_shape [OF rcFilterWalkableLowHeightSpans_relabels]) simp

lemma rcFilterWalkableLowHeightSpans_area:
  assumes "x < width hf"
  shows "area (spanAt (rcFilterWalkableLowHeightSpans wh hf) (x + z * width hf, i)) =
     (if z < height hf \<and> i < length (columnAt hf (x + z * width hf))
      then lowHeightFinal hf wh x z i (area (spanAt hf (x + z * width hf, i)))
      else area (spanAt hf (x + z * width hf, i)))"
  using relabels_area [OF rcFilterWalkableLowHeightSpans_relabels refl assms, of wh z i] assms
  by simp

lemma rcFilterWalkableLowHeightSpans_width0: "width hf = 0 \<Longrightarrow> rcFilterWalkableLowHeightSpans wh hf = hf"
proof -
  assume w: "width hf = 0"
  have "fold (\<lambda>z. id) zs h = h" for zs :: "nat list" and h :: rcHeightfield
    by (induction zs) simp_all
  then show ?thesis
    by (simp add: rcFilterWalkableLowHeightSpans_def w id_def)
qed

lemma lowHeightFinal_shape:
  assumes s: "shape hf = shape hf'" and i: "i < length (columnAt hf (x + z * width hf))"
  shows "lowHeightFinal hf wh x z i a = lowHeightFinal hf' wh x z i a"
proof -
  have w: "width hf = width hf'"
    using s by (simp add: shape_def)
  have a: "smax (columnAt hf (x + z * width hf) ! i) = smax (columnAt hf' (x + z * width hf) ! i)"
    by (rule geom_nth(2) [OF shape_column [OF s] i])
  have b: "nextSmin (columnAt hf (x + z * width hf)) i = nextSmin (columnAt hf' (x + z * width hf)) i"
    by (rule geom_nextSmin [OF shape_column [OF s]])
  show ?thesis
    unfolding lowHeightFinal_def a b by (simp add: w)
qed

section \<open>Idempotence\<close>

lemma pass_idem:
  assumes shape: "\<And>hf. shape (P hf) = shape hf"
    and area: "\<And>hf x z i. x < width hf \<Longrightarrow>
        area (spanAt (P hf) (x + z * width hf, i)) =
          (if z < height hf \<and> i < length (columnAt hf (x + z * width hf))
           then F hf x z i (area (spanAt hf (x + z * width hf, i)))
           else area (spanAt hf (x + z * width hf, i)))"
    and w0: "\<And>hf. width hf = 0 \<Longrightarrow> P hf = hf"
    and Fshape: "\<And>hf hf' x z i a. shape hf = shape hf' \<Longrightarrow> i < length (columnAt hf (x + z * width hf)) \<Longrightarrow>
        F hf x z i a = F hf' x z i a"
    and idem: "\<And>hf x z i a. F hf x z i (F hf x z i a) = F hf x z i a"
  shows "P (P hf) = P hf"
proof (cases "width hf = 0")
  case True
  then show ?thesis by (simp add: w0)
next
  case False
  let ?h1 = "P hf"
  have s1: "shape ?h1 = shape hf"
    by (rule shape)
  have w1: "width ?h1 = width hf" "height ?h1 = height hf"
    using s1 by (simp_all add: shape_def)
  show ?thesis
  proof (rule hf_eqI)
    show "shape (P ?h1) = shape ?h1"
      by (rule shape)
  next
    fix c i
    define x z where "x = c mod width hf" and "z = c div width hf"
    have x: "x < width hf" and c: "c = x + z * width hf"
      using False by (simp_all add: x_def z_def)
    have x1: "x < width ?h1" using x w1 by simp
    have l1: "length (columnAt ?h1 (x + z * width hf)) = length (columnAt hf (x + z * width hf))"
      by (rule shape_length_column [OF s1])
    show "area (spanAt (P ?h1) (c, i)) = area (spanAt ?h1 (c, i))"
    proof (cases "z < height hf \<and> i < length (columnAt hf (x + z * width hf))")
      case True
      then have i1: "i < length (columnAt ?h1 (x + z * width ?h1))"
        using l1 w1 by simp
      have r: "area (spanAt ?h1 (c, i)) = F hf x z i (area (spanAt hf (c, i)))"
        using area [OF x, of z i] True c by simp
      have "area (spanAt (P ?h1) (c, i)) = F ?h1 x z i (area (spanAt ?h1 (c, i)))"
        using area [OF x1, of z i] True l1 w1 c by simp
      also have "\<dots> = F hf x z i (area (spanAt ?h1 (c, i)))"
        by (rule Fshape [OF s1 i1])
      finally show ?thesis
        by (simp add: r idem)
    next
      case False
      then show ?thesis
        using area [OF x1, of z i] l1 w1 c by auto
    qed
  qed
qed

lemma rcFilterWalkableLowHeightSpans_idem:
  "rcFilterWalkableLowHeightSpans wh (rcFilterWalkableLowHeightSpans wh hf) = rcFilterWalkableLowHeightSpans wh hf"
  by (rule pass_idem [where P = "rcFilterWalkableLowHeightSpans wh" and F = "\<lambda>hf. lowHeightFinal hf wh"])
     (simp_all add: rcFilterWalkableLowHeightSpans_shape rcFilterWalkableLowHeightSpans_area
        rcFilterWalkableLowHeightSpans_width0 lowHeightFinal_shape lowHeightFinal_idem)

lemma rcFilterLedgeSpans_idem:
  "rcFilterLedgeSpans wh wc (rcFilterLedgeSpans wh wc hf) = rcFilterLedgeSpans wh wc hf"
  by (rule pass_idem [where P = "rcFilterLedgeSpans wh wc" and F = "\<lambda>hf. ledgeFinal hf wh wc"])
     (simp_all add: rcFilterLedgeSpans_shape rcFilterLedgeSpans_area
        rcFilterLedgeSpans_width0 ledgeFinal_shape ledgeFinal_idem)

section \<open>The two-phase ledge pass\<close>

lemma applyDemotions_shape: "shape (applyDemotions ds hf) = shape hf"
  unfolding applyDemotions_def by (induction ds arbitrary: hf) simp_all

lemma applyDemotions_area:
  "area (spanAt (applyDemotions ds hf) (c, i)) =
     (if (c, i) \<in> set ds \<and> i < length (columnAt hf c) then RC_NULL_AREA else area (spanAt hf (c, i)))"
  unfolding applyDemotions_def
proof (induction ds arbitrary: hf)
  case Nil
  show ?case by simp
next
  case (Cons r ds)
  show ?case
    by (cases r) (auto simp: Cons.IH area_spanAt_setArea)
qed

lemma ledgeDecisions_member:
  assumes x: "x < width hf"
  shows "(x + z * width hf, i) \<in> set (ledgeDecisions wh wc hf) \<longleftrightarrow>
     z < height hf \<and> i < length (columnAt hf (x + z * width hf)) \<and>
     area (spanAt hf (x + z * width hf, i)) \<noteq> RC_NULL_AREA \<and> ledgeDemotes hf wh wc x z i"
proof
  assume "(x + z * width hf, i) \<in> set (ledgeDecisions wh wc hf)"
  then obtain z' x' where z': "z' < height hf" and x': "x' < width hf"
    and e: "x + z * width hf = x' + z' * width hf"
    and i: "i < length (columnAt hf (x' + z' * width hf))"
    and a: "area (spanAt hf (x' + z' * width hf, i)) \<noteq> RC_NULL_AREA"
    and d: "ledgeDemotes hf wh wc x' z' i"
    unfolding ledgeDecisions_def by auto
  from loc_inj [OF x' x, of z z'] e have "x = x'" "z = z'" by simp_all
  with z' i a d show "z < height hf \<and> i < length (columnAt hf (x + z * width hf)) \<and>
     area (spanAt hf (x + z * width hf, i)) \<noteq> RC_NULL_AREA \<and> ledgeDemotes hf wh wc x z i"
    by simp
next
  assume "z < height hf \<and> i < length (columnAt hf (x + z * width hf)) \<and>
     area (spanAt hf (x + z * width hf, i)) \<noteq> RC_NULL_AREA \<and> ledgeDemotes hf wh wc x z i"
  then show "(x + z * width hf, i) \<in> set (ledgeDecisions wh wc hf)"
    unfolding ledgeDecisions_def using x
    by (simp, intro bexI [of _ z] bexI [of _ x]) auto
qed

lemma ledgeDecisions_width0: "width hf = 0 \<Longrightarrow> ledgeDecisions wh wc hf = []"
  by (simp add: ledgeDecisions_def)

lemma ledge_two_phase: "rcFilterLedgeSpans wh wc hf = ledgeTwoPhase wh wc hf"
proof (cases "width hf = 0")
  case True
  then show ?thesis
    by (simp add: rcFilterLedgeSpans_width0 ledgeTwoPhase_def ledgeDecisions_width0 applyDemotions_def)
next
  case False
  show ?thesis
  proof (rule hf_eqI)
    show "shape (rcFilterLedgeSpans wh wc hf) = shape (ledgeTwoPhase wh wc hf)"
      by (simp add: rcFilterLedgeSpans_shape ledgeTwoPhase_def applyDemotions_shape)
  next
    fix c i
    define x z where "x = c mod width hf" and "z = c div width hf"
    have x: "x < width hf" and c: "c = x + z * width hf"
      using False by (simp_all add: x_def z_def)
    show "area (spanAt (rcFilterLedgeSpans wh wc hf) (c, i)) = area (spanAt (ledgeTwoPhase wh wc hf) (c, i))"
      unfolding c ledgeTwoPhase_def applyDemotions_area rcFilterLedgeSpans_area [OF x]
        ledgeDecisions_member [OF x]
      by (auto simp: ledgeFinal_def)
  qed
qed

section \<open>Early exits of the neighbour scan\<close>

lemma scanDirections_Cons:
  "scanDirections hf wh wc xs zs x z f c (d # ds) (l, lo, hi) =
     (if neighborOutOfBounds xs zs x z d then (- wc - 1, lo, hi)
      else if min c (subFloorCeiling (neighborColumn hf xs x z d)) - f \<ge> wh then (- wc - 1, lo, hi)
      else scanDirections hf wh wc xs zs x z f c ds
             (scanNeighborColumn wh wc f c (neighborColumn hf xs x z d) (l, lo, hi)))"
  by (simp add: Let_def neighborOutOfBounds_def neighborColumn_def subFloorCeiling_def)

lemma scanDirections_exit:
  assumes "d \<in> set ds"
    and "neighborOutOfBounds xs zs x z d \<or> min c (subFloorCeiling (neighborColumn hf xs x z d)) - f \<ge> wh"
  shows "fst (scanDirections hf wh wc xs zs x z f c ds acc) = - wc - 1"
  using assms(1)
proof (induction ds arbitrary: acc)
  case Nil
  then show ?case by simp
next
  case (Cons d' ds)
  obtain l lo hi where acc: "acc = (l, lo, hi)"
    by (cases acc)
  show ?case
  proof (cases "neighborOutOfBounds xs zs x z d' \<or> min c (subFloorCeiling (neighborColumn hf xs x z d')) - f \<ge> wh")
    case True
    then show ?thesis
      unfolding acc scanDirections_Cons by auto
  next
    case False
    then have "d \<noteq> d'" using assms(2) by auto
    then have "d \<in> set ds" using Cons.prems by simp
    then show ?thesis
      unfolding acc scanDirections_Cons using False Cons.IH by simp
  qed
qed

lemma ledgeScan_exit:
  assumes "d < 4"
    and "neighborOutOfBounds xs zs x z d \<or>
         min (nextSmin (columnAt hf (x + z * xs)) i) (subFloorCeiling (neighborColumn hf xs x z d))
           - int (smax (columnAt hf (x + z * xs) ! i)) \<ge> wh"
  shows "fst (ledgeScan hf wh wc xs zs x z i) = - wc - 1"
proof -
  have "d \<in> set [0, 1, 2, 3]"
    using assms(1) by auto
  then show ?thesis
    unfolding ledgeScan_def Let_def using assms(2) by (rule scanDirections_exit)
qed

lemma ledgeDemotes_exit:
  assumes "d < 4"
    and "neighborOutOfBounds (width hf) (height hf) x z d \<or>
         min (nextSmin (columnAt hf (x + z * width hf)) i) (subFloorCeiling (neighborColumn hf (width hf) x z d))
           - int (smax (columnAt hf (x + z * width hf) ! i)) \<ge> wh"
  shows "ledgeDemotes hf wh wc x z i"
  using ledgeScan_exit [OF assms, of wc]
  by (auto simp: ledgeDemotes_def split: prod.splits)

lemma border_out_of_bounds:
  assumes "x < xs" "z < zs" "x = 0 \<or> Suc x = xs \<or> z = 0 \<or> Suc z = zs"
  shows "\<exists>d<4. neighborOutOfBounds xs zs x z d"
proof -
  have "neighborOutOfBounds xs zs x z 0" if "x = 0"
    using that by (simp add: neighborOutOfBounds_def rcGetDirOffsetX_def rcGetDirOffsetY_def)
  moreover have "neighborOutOfBounds xs zs x z 2" if "Suc x = xs"
    using that by (auto simp: neighborOutOfBounds_def rcGetDirOffsetX_def rcGetDirOffsetY_def)
  moreover have "neighborOutOfBounds xs zs x z 3" if "z = 0"
    using that by (simp add: neighborOutOfBounds_def rcGetDirOffsetX_def rcGetDirOffsetY_def)
  moreover have "neighborOutOfBounds xs zs x z 1" if "Suc z = zs"
    using that by (auto simp: neighborOutOfBounds_def rcGetDirOffsetX_def rcGetDirOffsetY_def)
  moreover have "(0::nat) < 4" "(1::nat) < 4" "(2::nat) < 4" "(3::nat) < 4"
    by simp_all
  ultimately show ?thesis
    using assms(3) by blast
qed

lemma nextSmin_Cons_Suc: "nextSmin (n # ns) (Suc j) = nextSmin ns j"
  by (simp add: nextSmin_def)

lemma nextSmin_Cons_0: "nextSmin (n # ns) 0 = subFloorCeiling ns"
  by (cases ns) (simp_all add: nextSmin_def subFloorCeiling_def)

lemma scanNeighborColumn_Cons:
  "scanNeighborColumn wh wc f c (n # ns) (l, lo, hi) =
     (if overlap f c (n # ns) 0 < wh then scanNeighborColumn wh wc f c ns (l, lo, hi)
      else if \<bar>int (smax n) - f\<bar> \<le> wc
      then scanNeighborColumn wh wc f c ns (min l (int (smax n) - f), min lo (int (smax n)), max hi (int (smax n)))
      else if int (smax n) - f < - wc then (min l (int (smax n) - f), lo, hi)
      else scanNeighborColumn wh wc f c ns (min l (int (smax n) - f), lo, hi))"
  by (simp add: Let_def overlap_def nextSmin_Cons_0 subFloorCeiling_def)

lemma overlap_Cons_Suc: "overlap f c (n # ns) (Suc j) = overlap f c ns j"
  by (simp add: overlap_def nextSmin_Cons_Suc)

lemma scanNeighborColumn_none:
  "(\<forall>j<length ns. overlap f c ns j < wh) \<Longrightarrow> scanNeighborColumn wh wc f c ns acc = acc"
proof (induction ns arbitrary: acc)
  case Nil
  show ?case by simp
next
  case (Cons n ns)
  obtain l lo hi where acc: "acc = (l, lo, hi)"
    by (cases acc)
  have 0: "overlap f c (n # ns) 0 < wh"
    using Cons.prems by auto
  have "\<forall>j<length ns. overlap f c ns j < wh"
    using Cons.prems overlap_Cons_Suc [of f c n ns] by auto
  then show ?case
    unfolding acc scanNeighborColumn_Cons using 0 Cons.IH by simp
qed

lemma scanDirections_none:
  assumes "\<forall>d\<in>set ds. \<not> neighborOutOfBounds xs zs x z d \<longrightarrow>
             (\<forall>j<length (neighborColumn hf xs x z d). overlap f c (neighborColumn hf xs x z d) j < wh)"
  shows "scanDirections hf wh wc xs zs x z f c ds (l, lo, hi) = (l, lo, hi) \<or>
         scanDirections hf wh wc xs zs x z f c ds (l, lo, hi) = (- wc - 1, lo, hi)"
  using assms
proof (induction ds)
  case Nil
  show ?case by simp
next
  case (Cons d ds)
  show ?case
  proof (cases "neighborOutOfBounds xs zs x z d")
    case True
    then show ?thesis
      unfolding scanDirections_Cons by simp
  next
    case False
    then have "\<forall>j<length (neighborColumn hf xs x z d). overlap f c (neighborColumn hf xs x z d) j < wh"
      using Cons.prems by simp
    then have "scanNeighborColumn wh wc f c (neighborColumn hf xs x z d) (l, lo, hi) = (l, lo, hi)"
      by (rule scanNeighborColumn_none)
    then show ?thesis
      unfolding scanDirections_Cons using False Cons.IH Cons.prems by simp
  qed
qed

section \<open>Claims on rcFilterLedgeSpans\<close>

text \<open>
  Claim C5. A direction that leaves the grid ends the direction loop at once with
  \<open>lowestNeighborFloorDifference = - walkableClimb - 1\<close>. A walkable span in a column on
  the edge of the grid (\<open>x = 0\<close>, \<open>x = width - 1\<close>, \<open>z = 0\<close> or \<open>z = height - 1\<close>) has
  such a direction: its neighbour scan ends with that value, whatever the spans of the
  neighbour columns are, and \<open>rcFilterLedgeSpans\<close> sets it to \<open>RC_NULL_AREA\<close>.
\<close>

theorem C5_ledge_border:
  assumes "x < width hf" and "z < height hf"
    and "i < length (columnAt hf (x + z * width hf))"
    and "area (spanAt hf (x + z * width hf, i)) \<noteq> RC_NULL_AREA"
    and "x = 0 \<or> x + 1 = width hf \<or> z = 0 \<or> z + 1 = height hf"
  shows "(neighborOutOfBounds (width hf) (height hf) x z d \<longrightarrow>
            scanDirections hf walkableHeight walkableClimb (width hf) (height hf) x z spanFloor spanCeiling
              (d # ds) (lnfd, lo, hi) = (- walkableClimb - 1, lo, hi)) \<and>
         fst (ledgeScan hf walkableHeight walkableClimb (width hf) (height hf) x z i) = - walkableClimb - 1 \<and>
         area (spanAt (rcFilterLedgeSpans walkableHeight walkableClimb hf) (x + z * width hf, i)) = RC_NULL_AREA"
proof -
  have 0: "neighborOutOfBounds (width hf) (height hf) x z d \<longrightarrow>
            scanDirections hf walkableHeight walkableClimb (width hf) (height hf) x z spanFloor spanCeiling
              (d # ds) (lnfd, lo, hi) = (- walkableClimb - 1, lo, hi)"
    unfolding scanDirections_Cons by simp
  from border_out_of_bounds [of x "width hf" z "height hf"] assms(1,2,5)
  obtain d where d: "d < 4" "neighborOutOfBounds (width hf) (height hf) x z d"
    by auto
  have 1: "fst (ledgeScan hf walkableHeight walkableClimb (width hf) (height hf) x z i) = - walkableClimb - 1"
    using d by (intro ledgeScan_exit [of d]) simp_all
  have "ledgeDemotes hf walkableHeight walkableClimb x z i"
    using d by (intro ledgeDemotes_exit [of d]) simp_all
  then have "area (spanAt (rcFilterLedgeSpans walkableHeight walkableClimb hf) (x + z * width hf, i)) = RC_NULL_AREA"
    using assms by (simp add: rcFilterLedgeSpans_area ledgeFinal_def)
  with 0 1 show ?thesis by simp
qed

lemma ledgeExample_simps:
  "width ledgeExample = 3" "height ledgeExample = 3"
  "columnAt ledgeExample 4 = [\<lparr>smin = 0, smax = 10, area = 1\<rparr>, \<lparr>smin = 12, smax = 20, area = 1\<rparr>]"
  "columnAt ledgeExample 0 = [\<lparr>smin = 0, smax = 10, area = 1\<rparr>]"
  "columnAt ledgeExample 3 = []"
  by (simp_all add: ledgeExample_def columnAt_def)

text \<open>The corner span of a 3 by 3 grid.\<close>

theorem C5_ledge_border_witness:
  "scanDirections ledgeExample 5 1 3 3 0 0 10 65535 [0, 1, 2, 3] (65535, 10, 10) = (- 1 - 1, 10, 10) \<and>
   fst (ledgeScan ledgeExample 5 1 3 3 0 0 0) = - 1 - 1 \<and>
   area (spanAt (rcFilterLedgeSpans 5 1 ledgeExample) (0, 0)) = RC_NULL_AREA"
proof -
  have w: "width ledgeExample = 3" "height ledgeExample = 3"
    by (simp_all add: ledgeExample_simps)
  have c0: "(0::nat) + 0 * 3 = 0"
    by simp
  have h1: "0 < width ledgeExample" and h2: "0 < height ledgeExample"
    by (simp_all add: w)
  have h3: "0 < length (columnAt ledgeExample (0 + 0 * width ledgeExample))"
    unfolding w c0 by (simp add: ledgeExample_simps)
  have h4: "area (spanAt ledgeExample (0 + 0 * width ledgeExample, 0)) \<noteq> RC_NULL_AREA"
    unfolding w c0 by (simp add: ledgeExample_simps spanAt_def RC_NULL_AREA_def)
  have h5: "(0::nat) = 0 \<or> (0::nat) + 1 = width ledgeExample \<or> (0::nat) = 0 \<or> (0::nat) + 1 = height ledgeExample"
    by simp
  have o: "neighborOutOfBounds (width ledgeExample) (height ledgeExample) 0 0 0"
    by (simp add: neighborOutOfBounds_def rcGetDirOffsetX_def)
  note T = C5_ledge_border [OF h1 h2 h3 h4 h5, of 0 5 1 10 65535 "[1, 2, 3]" 65535 10 10]
  show ?thesis
    using T o unfolding w c0 by simp
qed

text \<open>
  Claim C6. For a neighbour direction inside the grid, the filter first takes the lower
  bound \<open>smin\<close> of the bottom-most span of the neighbour column (the ceiling of the space
  beneath that span; the sentinel for an empty column). If the gap between the current
  floor and the lower of that ceiling and the current ceiling is at least
  \<open>walkableHeight\<close>, the direction loop ends at once with
  \<open>lowestNeighborFloorDifference = - walkableClimb - 1\<close>, the remaining directions
  \<open>ds\<close> are not scanned, and the span is set to \<open>RC_NULL_AREA\<close>, as at the grid edge.
\<close>

theorem C6_ledge_open_neighbor:
  assumes "x < width hf" and "z < height hf"
    and "i < length (columnAt hf (x + z * width hf))"
    and "area (spanAt hf (x + z * width hf, i)) \<noteq> RC_NULL_AREA"
    and "d \<in> {0, 1, 2, 3}"
    and "\<not> neighborOutOfBounds (width hf) (height hf) x z d"
    and "min (nextSmin (columnAt hf (x + z * width hf)) i)
             (subFloorCeiling (neighborColumn hf (width hf) x z d))
           - int (smax (columnAt hf (x + z * width hf) ! i)) \<ge> walkableHeight"
  shows "scanDirections hf walkableHeight walkableClimb (width hf) (height hf) x z
           (int (smax (columnAt hf (x + z * width hf) ! i))) (nextSmin (columnAt hf (x + z * width hf)) i)
           (d # ds) (lnfd, lo, hi) = (- walkableClimb - 1, lo, hi) \<and>
         fst (ledgeScan hf walkableHeight walkableClimb (width hf) (height hf) x z i) = - walkableClimb - 1 \<and>
         area (spanAt (rcFilterLedgeSpans walkableHeight walkableClimb hf) (x + z * width hf, i)) = RC_NULL_AREA"
proof -
  have d: "d < 4" using assms(5) by auto
  have 0: "scanDirections hf walkableHeight walkableClimb (width hf) (height hf) x z
           (int (smax (columnAt hf (x + z * width hf) ! i))) (nextSmin (columnAt hf (x + z * width hf)) i)
           (d # ds) (lnfd, lo, hi) = (- walkableClimb - 1, lo, hi)"
    unfolding scanDirections_Cons using assms(6,7) by simp
  have 1: "fst (ledgeScan hf walkableHeight walkableClimb (width hf) (height hf) x z i) = - walkableClimb - 1"
    using d assms(7) by (intro ledgeScan_exit [of d]) simp_all
  have "ledgeDemotes hf walkableHeight walkableClimb x z i"
    using d assms(7) by (intro ledgeDemotes_exit [of d]) simp_all
  then have "area (spanAt (rcFilterLedgeSpans walkableHeight walkableClimb hf) (x + z * width hf, i)) = RC_NULL_AREA"
    using assms by (simp add: rcFilterLedgeSpans_area ledgeFinal_def)
  with 0 1 show ?thesis by simp
qed

text \<open>The top span of the centre column of a 3 by 3 grid, next to an empty column.\<close>

theorem C6_ledge_open_neighbor_witness:
  "scanDirections ledgeExample 5 1 3 3 1 1 20 65535 [0, 1, 2, 3] (65535, 20, 20) = (- 1 - 1, 20, 20) \<and>
   fst (ledgeScan ledgeExample 5 1 3 3 1 1 1) = - 1 - 1 \<and>
   area (spanAt (rcFilterLedgeSpans 5 1 ledgeExample) (4, 1)) = RC_NULL_AREA"
proof -
  have c: "1 + 1 * width ledgeExample = 4"
    by (simp add: ledgeExample_simps)
  have h1: "1 < width ledgeExample" and h2: "1 < height ledgeExample"
    by (simp_all add: ledgeExample_simps)
  have h3: "1 < length (columnAt ledgeExample (1 + 1 * width ledgeExample))"
    unfolding c by (simp add: ledgeExample_simps)
  have h4: "area (spanAt ledgeExample (1 + 1 * width ledgeExample, 1)) \<noteq> RC_NULL_AREA"
    unfolding c by (simp add: ledgeExample_simps spanAt_def RC_NULL_AREA_def)
  have h5: "(0::nat) \<in> {0, 1, 2, 3}"
    by simp
  have h6: "\<not> neighborOutOfBounds (width ledgeExample) (height ledgeExample) 1 1 0"
    by (simp add: ledgeExample_simps neighborOutOfBounds_def rcGetDirOffsetX_def rcGetDirOffsetY_def)
  have n: "neighborColumn ledgeExample (width ledgeExample) 1 1 0 = []"
    by (simp add: ledgeExample_simps neighborColumn_def rcGetDirOffsetX_def rcGetDirOffsetY_def)
  have h7: "min (nextSmin (columnAt ledgeExample (1 + 1 * width ledgeExample)) 1)
             (subFloorCeiling (neighborColumn ledgeExample (width ledgeExample) 1 1 0))
           - int (smax (columnAt ledgeExample (1 + 1 * width ledgeExample) ! 1)) \<ge> 5"
    unfolding c n by (simp add: ledgeExample_simps nextSmin_def subFloorCeiling_def MAX_HEIGHTFIELD_HEIGHT_def)
  have v: "int (smax (columnAt ledgeExample 4 ! 1)) = 20"
    "nextSmin (columnAt ledgeExample 4) 1 = 65535"
    by (simp_all add: ledgeExample_simps nextSmin_def MAX_HEIGHTFIELD_HEIGHT_def)
  have w: "width ledgeExample = 3" "height ledgeExample = 3"
    by (simp_all add: ledgeExample_simps)
  have c4: "(1::nat) + 1 * 3 = 4"
    by simp
  show ?thesis
    using C6_ledge_open_neighbor [OF h1 h2 h3 h4 h5 h6 h7, of 1 "[1, 2, 3]" 65535 20 20]
    unfolding w c4 v .
qed

lemma ledgeExample2_simps:
  "width ledgeExample2 = 3" "height ledgeExample2 = 3"
  "columnAt ledgeExample2 4 = [\<lparr>smin = 0, smax = 10, area = 1\<rparr>, \<lparr>smin = 12, smax = 20, area = 1\<rparr>]"
  "columnAt ledgeExample2 (Suc 0) = [\<lparr>smin = 0, smax = 10, area = 1\<rparr>]"
  "columnAt ledgeExample2 3 = [\<lparr>smin = 0, smax = 10, area = 1\<rparr>]"
  "columnAt ledgeExample2 5 = [\<lparr>smin = 0, smax = 10, area = 1\<rparr>]"
  "columnAt ledgeExample2 7 = [\<lparr>smin = 0, smax = 10, area = 1\<rparr>]"
  by (simp_all add: ledgeExample2_def columnAt_def)

lemma ledgeExample2_scan: "ledgeScan ledgeExample2 5 1 3 3 1 1 0 = (65535, 10, 10)"
  by (simp add: ledgeScan_def ledgeExample2_simps nextSmin_def rcGetDirOffsetX_def rcGetDirOffsetY_def
        MAX_HEIGHTFIELD_HEIGHT_def Let_def)

section \<open>Claims on rcFilterWalkableLowHeightSpans and on the two-phase ledge pass\<close>



text \<open>
  Claim C10. The neighbour scan of \<open>rcFilterLedgeSpans\<close> gives the same values on two
  heightfields of the same shape, whatever their areas are. \<open>rcFilterLedgeSpans\<close>,
  which writes areas while it scans, gives the same heightfield as the two-phase variant
  \<open>ledgeTwoPhase\<close>, which first decides every demotion on the unchanged input and then
  applies them all.
\<close>

theorem C10_ledge_snapshot_equivalence:
  "(shape hf' = shape hf \<and> i < length (columnAt hf (x + z * xSize)) \<longrightarrow>
      ledgeScan hf' walkableHeight walkableClimb xSize zSize x z i
        = ledgeScan hf walkableHeight walkableClimb xSize zSize x z i) \<and>
   rcFilterLedgeSpans walkableHeight walkableClimb hf = ledgeTwoPhase walkableHeight walkableClimb hf"
  using ledgeScan_shape [of hf hf' i x z xSize walkableHeight walkableClimb zSize]
  by (simp add: ledge_two_phase)

text \<open>The bottom span of the centre column in two grids of the same shape.\<close>

theorem C10_ledge_snapshot_equivalence_witness:
  "ledgeScan ledgeExample3 5 1 3 3 1 1 0 = ledgeScan ledgeExample2 5 1 3 3 1 1 0"
proof -
  have s: "shape ledgeExample3 = shape ledgeExample2"
    by (simp add: shape_def ledgeExample2_def ledgeExample3_def)
  have i: "0 < length (columnAt ledgeExample2 (1 + 1 * 3))"
    by (simp add: ledgeExample2_simps)
  show ?thesis
    using C10_ledge_snapshot_equivalence [of ledgeExample3 ledgeExample2 0 1 1 3 5 1 3] s i
    by simp
qed

section \<open>rcFilterLowHangingWalkableObstacles, column by column\<close>

lemma length_lowHangingColumn [simp]: "length (lowHangingColumn wc p pw pa col) = length col"
  by (induction col arbitrary: p pw pa) (simp_all add: Let_def)

lemma lowHangingColumn_head:
  "lowHangingColumn wc p pw pa (s # rest) ! 0 =
     (if area s = RC_NULL_AREA \<and> pw \<and>
         (case p of None \<Rightarrow> False | Some q \<Rightarrow> int (smax s) - int (smax q) \<le> wc)
      then s\<lparr>area := pa\<rparr> else s)"
  by (simp add: Let_def)

lemma lowHangingColumn_second:
  "lowHangingColumn wc p pw pa (s # r # rest) ! Suc 0 =
     (if area r = RC_NULL_AREA \<and> area s \<noteq> RC_NULL_AREA \<and> int (smax r) - int (smax s) \<le> wc
      then r\<lparr>area := area s\<rparr> else r)"
proof (cases "area s = RC_NULL_AREA")
  case True
  then show ?thesis by (simp add: Let_def)
next
  case False
  then show ?thesis by (simp add: Let_def)
qed

lemma lowHangingColumn_Suc:
  "Suc i < length col \<Longrightarrow>
   lowHangingColumn wc p pw pa col ! Suc i =
     (if area (col ! Suc i) = RC_NULL_AREA \<and> area (col ! i) \<noteq> RC_NULL_AREA \<and>
         int (smax (col ! Suc i)) - int (smax (col ! i)) \<le> wc
      then (col ! Suc i)\<lparr>area := area (col ! i)\<rparr> else col ! Suc i)"
proof (induction col arbitrary: p pw pa i)
  case Nil
  then show ?case by simp
next
  case (Cons s rest)
  show ?case
  proof (cases i)
    case 0
    then obtain r rest' where rest: "rest = r # rest'"
      using Cons.prems by (cases rest) auto
    show ?thesis
      unfolding 0 rest lowHangingColumn_second by simp
  next
    case (Suc j)
    then have "Suc j < length rest" using Cons.prems by simp
    from Cons.IH [OF this]
    have "lowHangingColumn wc p pw pa (s # rest) ! Suc (Suc j) =
        (if area (rest ! Suc j) = RC_NULL_AREA \<and> area (rest ! j) \<noteq> RC_NULL_AREA \<and>
            int (smax (rest ! Suc j)) - int (smax (rest ! j)) \<le> wc
         then (rest ! Suc j)\<lparr>area := area (rest ! j)\<rparr> else rest ! Suc j)"
      by (simp add: Let_def)
    then show ?thesis
      unfolding Suc by simp
  qed
qed

lemma lowHangingColumn_initial_0:
  "col \<noteq> [] \<Longrightarrow> lowHangingColumn wc None False RC_NULL_AREA col ! 0 = col ! 0"
  by (cases col) (simp_all add: Let_def)

lemma columnAt_colUpd:
  "columnAt (colUpd g c hf) c' = (if c' = c \<and> c < length (spans hf) then g (columnAt hf c) else columnAt hf c')"
  by (auto simp: colUpd_def columnAt_def)

lemma length_spans_colUpd [simp]: "length (spans (colUpd g c hf)) = length (spans hf)"
  by (simp add: colUpd_def)

lemma fold_colUpd_upt:
  "columnAt (fold (colUpd g) [0..<n] hf) c =
     (if c < n \<and> c < length (spans hf) then g (columnAt hf c) else columnAt hf c)"
proof (induction n arbitrary: c)
  case 0
  show ?case by simp
next
  case (Suc n)
  have len: "length (spans (fold (colUpd g) [0..<n] hf)) = length (spans hf)"
    by (induction n) simp_all
  have "columnAt (fold (colUpd g) [0..<Suc n] hf) c =
      (if c = n \<and> n < length (spans hf) then g (columnAt (fold (colUpd g) [0..<n] hf) n)
       else columnAt (fold (colUpd g) [0..<n] hf) c)"
    by (simp add: columnAt_colUpd len)
  also have "\<dots> = (if c < Suc n \<and> c < length (spans hf) then g (columnAt hf c) else columnAt hf c)"
    unfolding Suc.IH by (cases "c = n") auto
  finally show ?case .
qed

lemma fold_raster:
  "fold (\<lambda>z. fold (\<lambda>x. f (x + z * w)) [0..<w]) [0..<h] s = fold f [0..<w * h] s"
proof (induction h)
  case 0
  show ?case by simp
next
  case (Suc h)
  have row: "fold (\<lambda>x. f (x + h * w)) [0..<w] t = fold f [w * h..<w * h + w] t" for t
  proof -
    have "map (\<lambda>x. x + h * w) [0..<w] = [h * w..<w + h * w]"
      by (rule map_add_upt)
    then have "[w * h..<w * h + w] = map (\<lambda>x. x + h * w) [0..<w]"
      by (simp add: mult.commute add.commute)
    then show ?thesis
      by (simp add: fold_map o_def)
  qed
  have "[0..<w * Suc h] = [0..<w * h] @ [w * h..<w * h + w]"
    using upt_add_eq_append [of 0 "w * h" w] by (simp add: add.commute)
  then show ?case
    using Suc.IH by (simp add: row)
qed

lemma rcFilterLowHangingWalkableObstacles_column:
  "columnAt (rcFilterLowHangingWalkableObstacles wc hf) c =
     (if c < width hf * height hf
      then lowHangingColumn wc None False RC_NULL_AREA (columnAt hf c)
      else columnAt hf c)"
proof -
  have eq1: "lowHangingColumnAt wc = colUpd (lowHangingColumn wc None False RC_NULL_AREA)"
    by (simp add: fun_eq_iff lowHangingColumnAt_def colUpd_def)
  have "rcFilterLowHangingWalkableObstacles wc hf =
      fold (\<lambda>z. fold (\<lambda>x. colUpd (lowHangingColumn wc None False RC_NULL_AREA) (x + z * width hf)) [0..<width hf])
        [0..<height hf] hf"
    unfolding rcFilterLowHangingWalkableObstacles_def Let_def eq1 ..
  also have "\<dots> = fold (colUpd (lowHangingColumn wc None False RC_NULL_AREA)) [0..<width hf * height hf] hf"
    by (rule fold_raster)
  finally have "rcFilterLowHangingWalkableObstacles wc hf =
      fold (colUpd (lowHangingColumn wc None False RC_NULL_AREA)) [0..<width hf * height hf] hf" .
  then have "columnAt (rcFilterLowHangingWalkableObstacles wc hf) c =
      (if c < width hf * height hf \<and> c < length (spans hf)
       then lowHangingColumn wc None False RC_NULL_AREA (columnAt hf c)
       else columnAt hf c)"
    by (simp only: fold_colUpd_upt)
  moreover have "lowHangingColumn wc None False RC_NULL_AREA (columnAt hf c) = columnAt hf c"
    if "\<not> c < length (spans hf)"
    using that by (simp add: columnAt_def)
  ultimately show ?thesis
    by (cases "c < length (spans hf)") simp_all
qed

lemma raster_index_less:
  fixes x :: nat
  assumes "x < w" "z < h"
  shows "x + z * w < w * h"
proof -
  have "x + z * w < w + z * w" using assms(1) by simp
  also have "\<dots> = w * Suc z" by simp
  also have "\<dots> \<le> w * h" using assms(2) by (intro mult_le_mono2) simp
  finally show ?thesis .
qed

text \<open>
  Claim C2. After \<open>rcFilterLowHangingWalkableObstacles\<close>, a span differs from the input
  span exactly when the input span is not walkable, the input span just below it in the
  column is walkable, and the step \<open>smax - smax\<close> from that span is at most
  \<open>walkableClimb\<close>; then it has the area of the span below. The test is on the areas of
  the input, so a span above a span that was not walkable in the input is never changed,
  also when that span has just been made walkable.
\<close>

theorem C2_low_hanging_rule:
  assumes "x < width hf" and "z < height hf"
    and "i < length (columnAt hf (x + z * width hf))"
  shows "spanAt (rcFilterLowHangingWalkableObstacles walkableClimb hf) (x + z * width hf, i) =
           (if 0 < i \<and> area (spanAt hf (x + z * width hf, i)) = RC_NULL_AREA \<and>
               area (spanAt hf (x + z * width hf, i - 1)) \<noteq> RC_NULL_AREA \<and>
               int (smax (spanAt hf (x + z * width hf, i))) - int (smax (spanAt hf (x + z * width hf, i - 1)))
                 \<le> walkableClimb
            then (spanAt hf (x + z * width hf, i))\<lparr>area := area (spanAt hf (x + z * width hf, i - 1))\<rparr>
            else spanAt hf (x + z * width hf, i)) \<and>
         (area (spanAt (rcFilterLowHangingWalkableObstacles walkableClimb hf) (x + z * width hf, i))
            \<noteq> area (spanAt hf (x + z * width hf, i)) \<longleftrightarrow>
          0 < i \<and> area (spanAt hf (x + z * width hf, i)) = RC_NULL_AREA \<and>
          area (spanAt hf (x + z * width hf, i - 1)) \<noteq> RC_NULL_AREA \<and>
          int (smax (spanAt hf (x + z * width hf, i))) - int (smax (spanAt hf (x + z * width hf, i - 1)))
            \<le> walkableClimb)"
proof -
  let ?c = "x + z * width hf"
  have c: "?c < width hf * height hf"
    using assms(1,2) by (rule raster_index_less)
  have col: "columnAt (rcFilterLowHangingWalkableObstacles walkableClimb hf) ?c =
      lowHangingColumn walkableClimb None False RC_NULL_AREA (columnAt hf ?c)"
    using c by (simp add: rcFilterLowHangingWalkableObstacles_column)
  have eq: "spanAt (rcFilterLowHangingWalkableObstacles walkableClimb hf) (?c, i) =
           (if 0 < i \<and> area (spanAt hf (?c, i)) = RC_NULL_AREA \<and>
               area (spanAt hf (?c, i - 1)) \<noteq> RC_NULL_AREA \<and>
               int (smax (spanAt hf (?c, i))) - int (smax (spanAt hf (?c, i - 1))) \<le> walkableClimb
            then (spanAt hf (?c, i))\<lparr>area := area (spanAt hf (?c, i - 1))\<rparr>
            else spanAt hf (?c, i))"
  proof (cases i)
    case 0
    then have "columnAt hf ?c \<noteq> []" using assms(3) by auto
    then show ?thesis
      unfolding 0 by (simp add: spanAt_def col lowHangingColumn_initial_0)
  next
    case (Suc j)
    then have "Suc j < length (columnAt hf ?c)" using assms(3) by simp
    then show ?thesis
      unfolding Suc by (simp add: spanAt_def col lowHangingColumn_Suc)
  qed
  have "area (spanAt hf (?c, i - 1)) \<noteq> area (spanAt hf (?c, i))"
    if "area (spanAt hf (?c, i)) = RC_NULL_AREA" "area (spanAt hf (?c, i - 1)) \<noteq> RC_NULL_AREA"
    using that by simp
  then have ne: "area (spanAt (rcFilterLowHangingWalkableObstacles walkableClimb hf) (?c, i))
            \<noteq> area (spanAt hf (?c, i)) \<longleftrightarrow>
          0 < i \<and> area (spanAt hf (?c, i)) = RC_NULL_AREA \<and>
          area (spanAt hf (?c, i - 1)) \<noteq> RC_NULL_AREA \<and>
          int (smax (spanAt hf (?c, i))) - int (smax (spanAt hf (?c, i - 1))) \<le> walkableClimb"
    unfolding eq by simp
  from eq ne show ?thesis
    by (rule conjI)
qed

theorem C2_low_hanging_rule_witness:
  "spanAt (rcFilterLowHangingWalkableObstacles 1 lowHangingExample) (0, 1) = \<lparr>smin = 10, smax = 11, area = 5\<rparr> \<and>
   spanAt (rcFilterLowHangingWalkableObstacles 1 lowHangingExample) (0, 2) = \<lparr>smin = 11, smax = 12, area = 0\<rparr>"
proof -
  have w: "width lowHangingExample = 1" "height lowHangingExample = 1"
    by (simp_all add: lowHangingExample_def)
  have c0: "(0::nat) + 0 * 1 = 0"
    by simp
  have col: "columnAt lowHangingExample 0 =
      [\<lparr>smin = 0, smax = 10, area = 5\<rparr>, \<lparr>smin = 10, smax = 11, area = 0\<rparr>, \<lparr>smin = 11, smax = 12, area = 0\<rparr>]"
    by (simp add: lowHangingExample_def columnAt_def)
  have h1: "0 < width lowHangingExample" and h2: "0 < height lowHangingExample"
    by (simp_all add: w)
  have h3: "1 < length (columnAt lowHangingExample (0 + 0 * width lowHangingExample))"
    "2 < length (columnAt lowHangingExample (0 + 0 * width lowHangingExample))"
    unfolding w c0 by (simp_all add: col)
  show ?thesis
    using C2_low_hanging_rule [OF h1 h2 h3(1), of 1] C2_low_hanging_rule [OF h1 h2 h3(2), of 1]
    unfolding w c0
    by (simp add: spanAt_def col RC_NULL_AREA_def)
qed

section \<open>Evaluation of chains\<close>

lemma fold_totals:
  "fold (\<lambda>i (t, n). (t + f i, n + 1)) [a..<b] (t0, n0) =
     (t0 + sum_list (map f [a..<b]), n0 + int (b - a))"
proof (induction b arbitrary: t0 n0)
  case 0
  show ?case by simp
next
  case (Suc b)
  show ?case
  proof (cases "a \<le> b")
    case True
    then show ?thesis
      by (simp add: Suc.IH Suc_diff_le add.assoc)
  next
    case False
    then show ?thesis by simp
  qed
qed

lemma chainTotals_eq:
  "chainTotals hf ch = (sum_list (stepHeights hf ch), int (length ch - 1))"
proof -
  have "map (\<lambda>i. \<bar>int (smax (spanAt hf (ch ! (i - 1)))) - int (smax (spanAt hf (ch ! i)))\<bar>) [1..<length ch]
      = stepHeights hf ch"
  proof (rule nth_equalityI)
    show "length (map (\<lambda>i. \<bar>int (smax (spanAt hf (ch ! (i - 1)))) - int (smax (spanAt hf (ch ! i)))\<bar>) [1..<length ch])
        = length (stepHeights hf ch)"
      by (simp add: stepHeights_def)
  next
    fix k assume "k < length (map (\<lambda>i. \<bar>int (smax (spanAt hf (ch ! (i - 1)))) - int (smax (spanAt hf (ch ! i)))\<bar>) [1..<length ch])"
    then have k: "k < length ch - 1" by simp
    then show "map (\<lambda>i. \<bar>int (smax (spanAt hf (ch ! (i - 1)))) - int (smax (spanAt hf (ch ! i)))\<bar>) [1..<length ch] ! k
        = stepHeights hf ch ! k"
      by (simp add: stepHeights_def)
  qed
  then show ?thesis
    unfolding chainTotals_def
    using fold_totals [of "\<lambda>i. \<bar>int (smax (spanAt hf (ch ! (i - 1)))) - int (smax (spanAt hf (ch ! i)))\<bar>"
        1 "length ch" 0 0]
    by simp
qed

lemma markChain_fold:
  "markChain rid ch hf = fold (\<lambda>r h. setArea h (fst r) (snd r) rid) ch hf"
proof -
  have "fold (\<lambda>r h. setArea h (fst r) (snd r) rid) (map ((!) ch) [0..<length ch]) hf = markChain rid ch hf"
    unfolding markChain_def by (simp add: fold_map o_def)
  then show ?thesis
    by (simp add: map_nth)
qed

lemma fold_setArea_shape: "shape (fold (\<lambda>r h. setArea h (fst r) (snd r) a) rs hf) = shape hf"
  by (induction rs arbitrary: hf) simp_all

lemma fold_setArea_area:
  "area (spanAt (fold (\<lambda>r h. setArea h (fst r) (snd r) a) rs hf) (c, i)) =
     (if (c, i) \<in> set rs \<and> i < length (columnAt hf c) then a else area (spanAt hf (c, i)))"
proof (induction rs arbitrary: hf)
  case Nil
  show ?case by simp
next
  case (Cons r rs)
  show ?case
    by (cases r) (auto simp: Cons.IH area_spanAt_setArea)
qed

lemma markChain_shape: "shape (markChain rid ch hf) = shape hf"
  by (simp add: markChain_fold fold_setArea_shape)

lemma markChain_area:
  "area (spanAt (markChain rid ch hf) (c, i)) =
     (if (c, i) \<in> set ch \<and> i < length (columnAt hf c) then rid else area (spanAt hf (c, i)))"
  by (simp add: markChain_fold fold_setArea_area)

section \<open>The sample step\<close>

lemma fold_filter_if:
  "fold (\<lambda>j w. if P j then f j w else w) js w = fold f (filter P js) w"
  by (induction js arbitrary: w) simp_all

lemma fold_concat_map:
  "fold f (concat (map g xs)) w = fold (\<lambda>x. fold f (g x)) xs w"
  by (induction xs arbitrary: w) simp_all

lemma scanNeighborSpans_pairs:
  "scanNeighborSpans hf wc (ci, i) ni work =
     fold (\<lambda>p. extendFirst (ci, fst p) (ni, snd p))
       (map (\<lambda>j. (i, j))
          (filter (\<lambda>j. area (spanAt hf (ni, j)) \<noteq> RC_NULL_AREA \<and>
                        \<bar>int (smax (spanAt hf (ci, i))) - int (smax (spanAt hf (ni, j)))\<bar> \<le> wc)
             [0..<length (columnAt hf ni)])) work"
proof -
  have "scanNeighborSpans hf wc (ci, i) ni work =
      fold (\<lambda>j w. if area (spanAt hf (ni, j)) \<noteq> RC_NULL_AREA \<and>
                      \<bar>int (smax (spanAt hf (ci, i))) - int (smax (spanAt hf (ni, j)))\<bar> \<le> wc
                   then extendFirst (ci, i) (ni, j) w else w)
        [0..<length (columnAt hf ni)] work"
    unfolding scanNeighborSpans_def
    by (rule arg_cong [where f = "\<lambda>f. fold f [0..<length (columnAt hf ni)] work"]) (auto simp: fun_eq_iff)
  then show ?thesis
    by (simp add: fold_filter_if fold_map o_def)
qed

lemma scanCurrentSpans_takeWhile:
  "scanCurrentSpans hf wc ci ni is work =
     fold (\<lambda>i. scanNeighborSpans hf wc (ci, i) ni)
       (takeWhile (\<lambda>i. area (spanAt hf (ci, i)) \<noteq> RC_NULL_AREA) is) work"
  by (induction "is" arbitrary: work) simp_all

lemma sampleStep_pairs:
  "sampleStep hf wc ci ni work =
     fold (\<lambda>p. extendFirst (ci, fst p) (ni, snd p)) (stepPairs hf wc ci ni) work"
  unfolding sampleStep_def stepPairs_def scanCurrentSpans_takeWhile fold_concat_map
  by (simp add: scanNeighborSpans_pairs [abs_def])

lemma extendFirst_first:
  assumes "\<forall>ch\<in>set pre. ch = [] \<or> last ch \<noteq> cur" and "ch \<noteq> []" and "last ch = cur"
  shows "extendFirst cur nb (pre @ ch # post) = pre @ (ch @ [nb]) # post"
  using assms(1) by (induction pre) (auto simp: assms(2,3))

lemma extendFirst_none:
  "\<forall>ch\<in>set work. ch = [] \<or> last ch \<noteq> cur \<Longrightarrow> extendFirst cur nb work = work"
  by (induction work) auto

lemma length_extendFirst [simp]: "length (extendFirst cur nb work) = length work"
  by (induction work) simp_all

lemma extendFirst_nth:
  "k < length work \<Longrightarrow>
   extendFirst cur nb work ! k = work ! k \<or>
   (work ! k \<noteq> [] \<and> last (work ! k) = cur \<and> extendFirst cur nb work ! k = work ! k @ [nb])"
proof (induction work arbitrary: k)
  case Nil
  then show ?case by simp
next
  case (Cons ch work)
  show ?case
  proof (cases k)
    case 0
    then show ?thesis by simp
  next
    case (Suc k')
    then have "k' < length work" using Cons.prems by simp
    from Cons.IH [OF this] show ?thesis
      unfolding Suc by auto
  qed
qed

lemma grownBy_refl: "grownBy ni old old"
  by (simp add: grownBy_def)

lemma grownBy_extendFirst:
  assumes g: "grownBy ni old w" and ne: "ci \<noteq> ni"
  shows "grownBy ni old (extendFirst (ci, i) (ni, j) w)"
  unfolding grownBy_def
proof (intro conjI allI impI)
  show "length (extendFirst (ci, i) (ni, j) w) = length old"
    using g by (simp add: grownBy_def)
next
  fix k assume k: "k < length old"
  then have kw: "k < length w" using g by (simp add: grownBy_def)
  have old: "w ! k = old ! k \<or> (\<exists>j'. w ! k = old ! k @ [(ni, j')])"
    using g k by (simp add: grownBy_def)
  from extendFirst_nth [OF kw, of "(ci, i)" "(ni, j)"]
  show "extendFirst (ci, i) (ni, j) w ! k = old ! k \<or>
        (\<exists>j'. extendFirst (ci, i) (ni, j) w ! k = old ! k @ [(ni, j')])"
  proof
    assume "extendFirst (ci, i) (ni, j) w ! k = w ! k"
    then show ?thesis using old by simp
  next
    assume e: "w ! k \<noteq> [] \<and> last (w ! k) = (ci, i) \<and> extendFirst (ci, i) (ni, j) w ! k = w ! k @ [(ni, j)]"
    from old have "w ! k = old ! k"
    proof
      assume "\<exists>j'. w ! k = old ! k @ [(ni, j')]"
      then obtain j' where "w ! k = old ! k @ [(ni, j')]" by blast
      then have "last (w ! k) = (ni, j')" by simp
      then show ?thesis using e ne by simp
    qed
    then show ?thesis using e by auto
  qed
qed

lemma grownBy_fold:
  assumes "grownBy ni old w" and "ci \<noteq> ni"
  shows "grownBy ni old (fold (\<lambda>p. extendFirst (ci, fst p) (ni, snd p)) ps w)"
  using assms(1)
proof (induction ps arbitrary: w)
  case Nil
  then show ?case by simp
next
  case (Cons p ps)
  show ?case
    using Cons.IH [OF grownBy_extendFirst [OF Cons.prems assms(2)]] by simp
qed

lemma sampleStep_grownBy: "ci \<noteq> ni \<Longrightarrow> grownBy ni work (sampleStep hf wc ci ni work)"
  unfolding sampleStep_pairs by (rule grownBy_fold [OF grownBy_refl])

lemma convergeExample_cols:
  "columnAt convergeExample 0 = [\<lparr>smin = 0, smax = 10, area = 63\<rparr>, \<lparr>smin = 11, smax = 12, area = 63\<rparr>]"
  "columnAt convergeExample (Suc 0) = [\<lparr>smin = 0, smax = 11, area = 63\<rparr>]"
  "columnAt convergeExample 2 = [\<lparr>smin = 0, smax = 10, area = 63\<rparr>, \<lparr>smin = 11, smax = 12, area = 63\<rparr>]"
  by (simp_all add: convergeExample_def columnAt_def)

lemma blockedExample_cols:
  "columnAt blockedExample 0 = [\<lparr>smin = 0, smax = 1, area = 63\<rparr>, \<lparr>smin = 5, smax = 6, area = 0\<rparr>,
                \<lparr>smin = 10, smax = 20, area = 63\<rparr>]"
  "columnAt blockedExample (Suc 0) = [\<lparr>smin = 0, smax = 20, area = 63\<rparr>]"
  by (simp_all add: blockedExample_def columnAt_def)

text \<open>
  Claim C7, as the code has it. In a sample step the spans of the current column are
  taken from the bottom up to, not including, the first span that is not walkable. For
  each of them every walkable span of the neighbour column with
  \<open>\<bar>current.smax - neighbor.smax\<bar> \<le> walkableClimb\<close>, from the bottom, is appended to the
  first chain of the working list whose last element is the current span, if there is
  one; after an append the scan goes on with the next neighbour span for the same current
  span. The number of chains stays the same and every chain grows by at most one element.
\<close>

theorem C7_sample_step:
  assumes "currentIdx \<noteq> neighborIdx" and "k < length work"
    and "\<forall>c\<in>set pre. c = [] \<or> last c \<noteq> CurrentSpan" and "ch \<noteq> []" and "last ch = CurrentSpan"
  shows "sampleStep hf walkableClimb currentIdx neighborIdx work =
           fold (\<lambda>p. extendFirst (currentIdx, fst p) (neighborIdx, snd p))
             (stepPairs hf walkableClimb currentIdx neighborIdx) work \<and>
         extendFirst CurrentSpan NeighborSpan (pre @ ch # post) = pre @ (ch @ [NeighborSpan]) # post \<and>
         length (sampleStep hf walkableClimb currentIdx neighborIdx work) = length work \<and>
         take (length (work ! k)) (sampleStep hf walkableClimb currentIdx neighborIdx work ! k) = work ! k \<and>
         length (sampleStep hf walkableClimb currentIdx neighborIdx work ! k) \<le> Suc (length (work ! k))"
proof -
  have g: "grownBy neighborIdx work (sampleStep hf walkableClimb currentIdx neighborIdx work)"
    using assms(1) by (rule sampleStep_grownBy)
  then have len: "length (sampleStep hf walkableClimb currentIdx neighborIdx work) = length work"
    by (simp add: grownBy_def)
  from g assms(2)
  have "sampleStep hf walkableClimb currentIdx neighborIdx work ! k = work ! k \<or>
        (\<exists>j. sampleStep hf walkableClimb currentIdx neighborIdx work ! k = work ! k @ [(neighborIdx, j)])"
    by (simp add: grownBy_def)
  then have grow: "take (length (work ! k)) (sampleStep hf walkableClimb currentIdx neighborIdx work ! k) = work ! k \<and>
         length (sampleStep hf walkableClimb currentIdx neighborIdx work ! k) \<le> Suc (length (work ! k))"
    by auto
  from sampleStep_pairs extendFirst_first [OF assms(3-5)] len grow show ?thesis
    by (intro conjI) simp_all
qed

text \<open>The second sample step from the bottom span of column 0 of a grid of three
  columns: both chains end at the span of column 1.\<close>

theorem C7_sample_step_witness:
  "extendFirst (1, 0) (2, 0) [[(0, 0), (1, 0)], [(0, 1), (1, 0)]] = [[(0, 0), (1, 0), (2, 0)], [(0, 1), (1, 0)]] \<and>
   length (sampleStep convergeExample 3 1 2 [[(0, 0), (1, 0)], [(0, 1), (1, 0)]]) = 2 \<and>
   length (sampleStep convergeExample 3 1 2 [[(0, 0), (1, 0)], [(0, 1), (1, 0)]] ! 1) \<le> 3"
proof -
  have h1: "(1::nat) \<noteq> 2"
    by simp
  have h2: "1 < length [[(0, 0), (1, 0)], [(0, 1), (1, 0)] :: spanRef list]"
    by simp
  have h3: "\<forall>c\<in>set ([] :: spanRef list list). c = [] \<or> last c \<noteq> (1, 0)"
    by simp
  have h4: "[(0, 0), (1, 0)] \<noteq> ([] :: spanRef list)"
    by simp
  have h5: "last [(0, 0), (1, 0)] = ((1, 0) :: spanRef)"
    by simp
  note T = C7_sample_step [OF h1 h2 h3 h4 h5, of convergeExample 3 "(2, 0)" "[[(0, 1), (1, 0)]]"]
  have a: "extendFirst (1, 0) (2, 0) [[(0, 0), (1, 0)], [(0, 1), (1, 0)]]
      = [[(0, 0), (1, 0), (2, 0)], [(0, 1), (1, 0)]]"
    using T [THEN conjunct2, THEN conjunct1] by simp
  have b: "length (sampleStep convergeExample 3 1 2 [[(0, 0), (1, 0)], [(0, 1), (1, 0)]]) = 2"
    using T [THEN conjunct2, THEN conjunct2, THEN conjunct1] by simp
  have c: "length (sampleStep convergeExample 3 1 2 [[(0, 0), (1, 0)], [(0, 1), (1, 0)]] ! 1) \<le> 3"
    using T [THEN conjunct2, THEN conjunct2, THEN conjunct2, THEN conjunct2] by simp
  from a b c show ?thesis
    by (intro conjI)
qed

text \<open>
  Claim C7 as stated fails. In \<open>convergeExample\<close>, after the first sample step from the
  bottom span of column 0, both chains end at the span of column 1; in the second step,
  after the lower span of column 2 is appended to the first chain, the scan takes the
  upper span of column 2 for the same current span and appends it to the second chain,
  where the claim has the scan leave the current span. In \<open>blockedExample\<close>, in the first
  sample step from the bottom span of column 0, the top span of column 0 is walkable and
  within \<open>walkableClimb\<close> of the span of column 1, and a chain ends at it, but the scan of
  the current column has ended at the span below, which is not walkable, and nothing is
  appended.
\<close>

theorem C7_sample_step_counterexample:
  "sampleStep convergeExample 3 0 1 (InitSpanListInColume convergeExample (0, 0))
     = [[(0, 0), (1, 0)], [(0, 1), (1, 0)]] \<and>
   sampleStep convergeExample 3 1 2 [[(0, 0), (1, 0)], [(0, 1), (1, 0)]]
     = [[(0, 0), (1, 0), (2, 0)], [(0, 1), (1, 0), (2, 1)]] \<and>
   sampleStepAsClaimed convergeExample 3 1 2 [[(0, 0), (1, 0)], [(0, 1), (1, 0)]]
     = [[(0, 0), (1, 0), (2, 0)], [(0, 1), (1, 0)]] \<and>
   InitSpanListInColume blockedExample (0, 0) = [[(0, 0)], [(0, 1)], [(0, 2)]] \<and>
   sampleStep blockedExample 3 0 1 [[(0, 0)], [(0, 1)], [(0, 2)]]
     = [[(0, 0)], [(0, 1)], [(0, 2)]] \<and>
   sampleStepAsClaimed blockedExample 3 0 1 [[(0, 0)], [(0, 1)], [(0, 2)]]
     = [[(0, 0)], [(0, 1)], [(0, 2), (1, 0)]]"
  by code_simp

section \<open>No chain is empty\<close>

lemma extendFirst_nonempty:
  "\<forall>ch\<in>set work. ch \<noteq> [] \<Longrightarrow> \<forall>ch\<in>set (extendFirst cur nb work). ch \<noteq> []"
  by (induction work) auto

lemma sampleStep_nonempty:
  assumes "\<forall>ch\<in>set work. ch \<noteq> []"
  shows "\<forall>ch\<in>set (sampleStep hf wc ci ni work). ch \<noteq> []"
proof -
  have "\<forall>ch\<in>set (fold (\<lambda>p. extendFirst (ci, fst p) (ni, snd p)) ps w). ch \<noteq> []"
    if "\<forall>ch\<in>set w. ch \<noteq> []" for ps w
    using that
  proof (induction ps arbitrary: w)
    case Nil
    then show ?case by simp
  next
    case (Cons p ps)
    show ?case
      using Cons.IH [OF extendFirst_nonempty [OF Cons.prems]] by simp
  qed
  then show ?thesis
    unfolding sampleStep_pairs using assms by blast
qed

lemma sampleLoop_nonempty:
  "\<forall>ch\<in>set work. ch \<noteq> [] \<Longrightarrow> \<forall>ch\<in>set (sampleLoop hf wc limit columnOf n cur nb work). ch \<noteq> []"
proof (induction n arbitrary: cur nb work)
  case 0
  then show ?case by simp
next
  case (Suc n)
  show ?case
    using Suc.prems Suc.IH [OF sampleStep_nonempty [OF Suc.prems]] by simp
qed

lemma InitSpanListInColume_nonempty: "\<forall>ch\<in>set (InitSpanListInColume hf r). ch \<noteq> []"
  by (simp add: InitSpanListInColume_def)

lemma buildChains_nonempty:
  "\<forall>ch\<in>set (buildChainsX hf wc xSize x z i). ch \<noteq> []"
  "\<forall>ch\<in>set (buildChainsZ hf wc xSize zSize x z i). ch \<noteq> []"
  unfolding buildChainsX_def buildChainsZ_def
  by (rule sampleLoop_nonempty [OF InitSpanListInColume_nonempty])+

section \<open>Single-precision rounding\<close>

lemma binaryExponent_bounds:
  assumes "q \<noteq> 0"
  shows "2 powi binaryExponent q \<le> \<bar>q\<bar> \<and> \<bar>q\<bar> < 2 powi (binaryExponent q + 1)"
proof -
  obtain a b where ab: "quotient_of \<bar>q\<bar> = (a, b)" by (cases "quotient_of \<bar>q\<bar>")
  have b: "0 < b" using ab quotient_of_denom_pos by blast
  have q: "\<bar>q\<bar> = of_int a / of_int b" using ab by (rule quotient_of_div)
  have a: "0 < a"
  proof (rule ccontr)
    assume "\<not> 0 < a"
    hence "of_int a / (of_int b :: rat) \<le> 0" using b by (simp add: divide_le_0_iff)
    thus False using q assms by simp
  qed
  define la where "la = bitlen a"
  define lb where "lb = bitlen b"
  have la: "2 ^ nat (la - 1) \<le> a" "a < 2 ^ nat la" using bitlen_bounds [OF a] by (simp_all add: la_def)
  have lb: "2 ^ nat (lb - 1) \<le> b" "b < 2 ^ nat lb" using bitlen_bounds [OF b] by (simp_all add: lb_def)
  have la1: "1 \<le> la" using a by (auto simp: la_def bitlen_alt_def)
  have lb1: "1 \<le> lb" using b by (auto simp: lb_def bitlen_alt_def)
  have pa: "(2::rat) powi (la - 1) \<le> of_int a" "of_int a < (2::rat) powi la"
  proof -
    have "(of_int (2 ^ nat (la - 1)) :: rat) \<le> of_int a" using la(1) by (simp only: of_int_le_iff)
    thus "(2::rat) powi (la - 1) \<le> of_int a" using la1 by (simp add: power_int_def)
    have "(of_int a :: rat) < of_int (2 ^ nat la)" using la(2) by (simp only: of_int_less_iff)
    thus "of_int a < (2::rat) powi la" using la1 by (simp add: power_int_def)
  qed
  have pb: "(2::rat) powi (lb - 1) \<le> of_int b" "of_int b < (2::rat) powi lb"
  proof -
    have "(of_int (2 ^ nat (lb - 1)) :: rat) \<le> of_int b" using lb(1) by (simp only: of_int_le_iff)
    thus "(2::rat) powi (lb - 1) \<le> of_int b" using lb1 by (simp add: power_int_def)
    have "(of_int b :: rat) < of_int (2 ^ nat lb)" using lb(2) by (simp only: of_int_less_iff)
    thus "of_int b < (2::rat) powi lb" using lb1 by (simp add: power_int_def)
  qed
  have bpos: "(0::rat) < of_int b" using b by simp
  have lo: "(2::rat) powi (la - lb - 1) \<le> \<bar>q\<bar>"
  proof -
    have "(2::rat) powi (la - lb - 1) * of_int b \<le> 2 powi (la - lb - 1) * 2 powi lb"
      using pb(2) by (intro mult_left_mono) simp_all
    also have "\<dots> = 2 powi (la - 1)" by (simp add: power_int_add [symmetric])
    also have "\<dots> \<le> of_int a" by (rule pa(1))
    finally show ?thesis unfolding q using bpos by (simp add: pos_le_divide_eq)
  qed
  have hi: "\<bar>q\<bar> < (2::rat) powi (la - lb + 1)"
  proof -
    have "of_int a < (2::rat) powi la" by (rule pa(2))
    also have "\<dots> = 2 powi (la - lb + 1) * 2 powi (lb - 1)" by (simp add: power_int_add [symmetric])
    also have "\<dots> \<le> 2 powi (la - lb + 1) * of_int b"
      using pb(1) by (intro mult_left_mono) simp_all
    finally show ?thesis unfolding q using bpos by (simp add: pos_divide_less_eq)
  qed
  have e: "binaryExponent q = (if 2 powi (la - lb) \<le> \<bar>q\<bar> then la - lb else la - lb - 1)"
    by (simp add: binaryExponent_def ab la_def lb_def Let_def)
  show ?thesis using lo hi by (simp add: e)
qed

lemma roundHalfEven_error: "\<bar>of_int (roundHalfEven m) - m\<bar> \<le> 1 / 2"
  unfolding roundHalfEven_def Let_def by (auto simp: abs_if) linarith+

lemma roundHalfEven_of_int [simp]: "roundHalfEven (of_int n) = n"
  by (simp add: roundHalfEven_def)

text \<open>The rounded value is within half a unit in the last place of the exact one.\<close>

lemma float32_error: "\<bar>float32 q - q\<bar> \<le> 2 powi (binaryExponent q - 24)"
proof (cases "q = 0")
  case True
  then show ?thesis by (simp add: float32_def)
next
  case False
  define ulp :: rat where "ulp = 2 powi (binaryExponent q - 23)"
  have u: "0 < ulp" by (simp add: ulp_def)
  have "float32 q - q = (of_int (roundHalfEven (q / ulp)) - q / ulp) * ulp"
    using False u by (simp add: float32_def Let_def ulp_def [symmetric] algebra_simps)
  hence "\<bar>float32 q - q\<bar> = \<bar>of_int (roundHalfEven (q / ulp)) - q / ulp\<bar> * ulp"
    using u by (simp add: abs_mult)
  also have "\<dots> \<le> 1 / 2 * ulp"
    using roundHalfEven_error [of "q / ulp"] u by (intro mult_right_mono) simp_all
  also have "\<dots> = 2 powi (binaryExponent q - 24)"
    by (simp add: ulp_def power_int_diff)
  finally show ?thesis .
qed

text \<open>An integer below \<open>2 ^ 24\<close> in absolute value is a single-precision number.\<close>

lemma float32_of_int:
  assumes "\<bar>k\<bar> < 2 ^ 24"
  shows "float32 (of_int k) = of_int k"
proof (cases "k = 0")
  case True
  then show ?thesis by (simp add: float32_def)
next
  case False
  define e where "e = binaryExponent (of_int k)"
  have k0: "(of_int k :: rat) \<noteq> 0" using False by simp
  have "(2::rat) powi e \<le> \<bar>of_int k\<bar>"
    using binaryExponent_bounds [OF k0] by (simp add: e_def)
  also have "\<dots> < 2 powi 24"
  proof -
    have "(of_int \<bar>k\<bar> :: rat) < of_int (2 ^ 24)" using assms by (simp only: of_int_less_iff)
    then show ?thesis by simp
  qed
  finally have "(2::rat) powi e < 2 powi 24" .
  then have "e < 24" using power_int_le_imp_less_exp [of "2::rat" e 24] by simp
  then have n: "0 \<le> 23 - e" by simp
  have ulp: "(2::rat) powi (e - 23) = 1 / 2 ^ nat (23 - e)"
    using n by (simp add: power_int_def field_simps)
  have "of_int k / (2::rat) powi (e - 23) = of_int (k * 2 ^ nat (23 - e))"
    by (simp add: ulp)
  then have "roundHalfEven (of_int k / 2 powi (e - 23)) = k * 2 ^ nat (23 - e)"
    by (simp only: roundHalfEven_of_int)
  then show ?thesis
    using False by (simp add: float32_def e_def [symmetric] Let_def ulp)
qed

section \<open>The chains of a pass and their evaluation\<close>

lemma smax_spanAt_setArea: "smax (spanAt (setArea hf c i a) r) = smax (spanAt hf r)"
proof (cases "fst r = c")
  case False
  then show ?thesis by (simp add: spanAt_def columnAt_setArea)
next
  case True
  show ?thesis
  proof (cases "snd r = i")
    case False
    then show ?thesis using True by (simp add: spanAt_def columnAt_setArea)
  next
    case i: True
    show ?thesis
    proof (cases "i < length (columnAt hf c)")
      case True
      then show ?thesis using \<open>fst r = c\<close> i by (simp add: spanAt_def columnAt_setArea)
    next
      case False
      then show ?thesis using \<open>fst r = c\<close> i by (simp add: spanAt_def columnAt_setArea list_update_beyond)
    qed
  qed
qed

lemma smax_markChain: "smax (spanAt (markChain rid ch hf) r) = smax (spanAt hf r)"
  unfolding markChain_fold by (induction ch arbitrary: hf) (simp_all add: smax_spanAt_setArea)

lemma evaluateChain_cases:
  "evaluateChain thr rid ch hf = hf \<or> evaluateChain thr rid ch hf = markChain rid ch hf"
  by (auto simp: evaluateChain_def split: list.splits prod.splits)

lemma evaluateChain_eq:
  assumes "ch \<noteq> []"
  shows "evaluateChain thr rid ch hf = (if chainRugged thr hf ch then markChain rid ch hf else hf)"
proof -
  obtain s ch' where ch: "ch = s # ch'"
    using assms by (cases ch) auto
  have len: "int (length ch - 1) > 0 \<longleftrightarrow> 1 < length ch"
    by (simp add: ch)
  show ?thesis
    unfolding evaluateChain_def chainTotals_eq chainRugged_def using len
    by (simp add: ch avgSlopeGE_def)
qed

lemma chainRugged_cong:
  assumes "area (spanAt hf' (hd ch)) = area (spanAt hf (hd ch))"
    and "\<And>r. smax (spanAt hf' r) = smax (spanAt hf r)"
  shows "chainRugged thr hf' ch = chainRugged thr hf ch"
  by (simp add: chainRugged_def stepHeights_def assms)

lemma EvaluateRuggedArea_effect:
  assumes "\<forall>ch\<in>set chs. ch \<noteq> []"
    and "\<forall>k<length chs. \<forall>k'<k. hd (chs ! k) \<notin> set (chs ! k')"
  shows "shape (EvaluateRuggedArea chs thr rid hf) = shape hf \<and>
         (\<forall>r. smax (spanAt (EvaluateRuggedArea chs thr rid hf) r) = smax (spanAt hf r)) \<and>
         (\<forall>c i. area (spanAt (EvaluateRuggedArea chs thr rid hf) (c, i)) =
            (if (\<exists>ch\<in>set chs. (c, i) \<in> set ch \<and> chainRugged thr hf ch) \<and> i < length (columnAt hf c)
             then rid else area (spanAt hf (c, i))))"
  using assms
proof (induction chs rule: rev_induct)
  case Nil
  show ?case by (simp add: EvaluateRuggedArea_def)
next
  case (snoc ch chs)
  define hf' where "hf' = EvaluateRuggedArea chs thr rid hf"
  have ne: "\<forall>ch\<in>set chs. ch \<noteq> []" and ch: "ch \<noteq> []"
    using snoc.prems(1) by simp_all
  have fresh: "\<forall>k<length chs. \<forall>k'<k. hd (chs ! k) \<notin> set (chs ! k')"
  proof (intro allI impI)
    fix k k' assume k: "k < length chs" and k': "k' < k"
    have "k < length (chs @ [ch])"
      using k by simp
    from snoc.prems(2) [rule_format, OF this k']
    show "hd (chs ! k) \<notin> set (chs ! k')"
      using k k' by (simp add: nth_append)
  qed
  have head: "hd ch \<notin> set ch'" if "ch' \<in> set chs" for ch'
  proof -
    from that obtain k' where k': "k' < length chs" "chs ! k' = ch'"
      unfolding in_set_conv_nth by blast
    have "length chs < length (chs @ [ch])"
      by simp
    from snoc.prems(2) [rule_format, OF this k'(1)]
    show ?thesis using k' by (simp add: nth_append)
  qed
  note IH = snoc.IH [OF ne fresh, folded hf'_def]
  have sh: "shape hf' = shape hf"
    by (rule IH [THEN conjunct1])
  have sm: "smax (spanAt hf' r) = smax (spanAt hf r)" for r
    by (rule IH [THEN conjunct2, THEN conjunct1, rule_format])
  have ar: "area (spanAt hf' (c, i)) =
      (if (\<exists>ch\<in>set chs. (c, i) \<in> set ch \<and> chainRugged thr hf ch) \<and> i < length (columnAt hf c)
       then rid else area (spanAt hf (c, i)))" for c i
    by (rule IH [THEN conjunct2, THEN conjunct2, rule_format])
  have "\<not> (\<exists>ch'\<in>set chs. (fst (hd ch), snd (hd ch)) \<in> set ch' \<and> chainRugged thr hf ch')"
    using head by simp
  then have "area (spanAt hf' (fst (hd ch), snd (hd ch))) = area (spanAt hf (fst (hd ch), snd (hd ch)))"
    by (simp only: ar simp_thms if_False)
  then have "area (spanAt hf' (hd ch)) = area (spanAt hf (hd ch))"
    by simp
  then have rug: "chainRugged thr hf' ch = chainRugged thr hf ch"
    using sm by (rule chainRugged_cong)
  have "EvaluateRuggedArea (chs @ [ch]) thr rid hf = evaluateChain thr rid ch hf'"
    by (simp add: EvaluateRuggedArea_def hf'_def)
  then have E: "EvaluateRuggedArea (chs @ [ch]) thr rid hf =
      (if chainRugged thr hf ch then markChain rid ch hf' else hf')"
    by (simp only: evaluateChain_eq [OF ch] rug)
  have len: "length (columnAt hf' c) = length (columnAt hf c)" for c
    by (rule shape_length_column [OF sh])
  show ?case
  proof (cases "chainRugged thr hf ch")
    case True
    have 1: "shape (markChain rid ch hf') = shape hf"
      by (simp add: markChain_shape sh)
    have 2: "\<forall>r. smax (spanAt (markChain rid ch hf') r) = smax (spanAt hf r)"
      by (simp add: smax_markChain sm)
    have 3: "area (spanAt (markChain rid ch hf') (c, i)) =
        (if (\<exists>ch'\<in>set (chs @ [ch]). (c, i) \<in> set ch' \<and> chainRugged thr hf ch') \<and> i < length (columnAt hf c)
         then rid else area (spanAt hf (c, i)))" for c i
      unfolding markChain_area len ar using True by auto
    show ?thesis
      unfolding E using True 1 2 3 by simp
  next
    case False
    have 3: "area (spanAt hf' (c, i)) =
        (if (\<exists>ch'\<in>set (chs @ [ch]). (c, i) \<in> set ch' \<and> chainRugged thr hf ch') \<and> i < length (columnAt hf c)
         then rid else area (spanAt hf (c, i)))" for c i
      unfolding ar using False by auto
    show ?thesis
      unfolding E using False sh sm 3 by simp
  qed
qed

lemma chainsFrom_init: "chainsFrom hf c0 i0 (InitSpanListInColume hf (c0, i0))"
  by (auto simp: chainsFrom_def InitSpanListInColume_def)

lemma chainsFrom_extendFirst:
  assumes w: "chainsFrom hf c0 i0 w" and ne: "ni \<noteq> c0" and j: "j < length (columnAt hf ni)"
  shows "chainsFrom hf c0 i0 (extendFirst cur (ni, j) w)"
  unfolding chainsFrom_def
proof (intro allI impI)
  fix k assume "k < length (extendFirst cur (ni, j) w)"
  then have k: "k < length w" by simp
  have old: "w ! k \<noteq> []" "hd (w ! k) = (c0, i0 + k)" "\<forall>r\<in>set (tl (w ! k)). fst r \<noteq> c0"
    "\<forall>r\<in>set (w ! k). snd r < length (columnAt hf (fst r))"
    using w k by (simp_all add: chainsFrom_def)
  from extendFirst_nth [OF k, of cur "(ni, j)"]
  show "extendFirst cur (ni, j) w ! k \<noteq> [] \<and> hd (extendFirst cur (ni, j) w ! k) = (c0, i0 + k) \<and>
        (\<forall>r\<in>set (tl (extendFirst cur (ni, j) w ! k)). fst r \<noteq> c0) \<and>
        (\<forall>r\<in>set (extendFirst cur (ni, j) w ! k). snd r < length (columnAt hf (fst r)))"
  proof
    assume "extendFirst cur (ni, j) w ! k = w ! k"
    then show ?thesis using old by simp
  next
    assume "w ! k \<noteq> [] \<and> last (w ! k) = cur \<and> extendFirst cur (ni, j) w ! k = w ! k @ [(ni, j)]"
    then have e: "extendFirst cur (ni, j) w ! k = w ! k @ [(ni, j)]" by simp
    show ?thesis
      unfolding e using old ne j by auto
  qed
qed

lemma stepPairs_valid: "p \<in> set (stepPairs hf wc ci ni) \<Longrightarrow> snd p < length (columnAt hf ni)"
  by (auto simp: stepPairs_def)

lemma chainsFrom_sampleStep:
  assumes "chainsFrom hf c0 i0 w" and "ni \<noteq> c0"
  shows "chainsFrom hf c0 i0 (sampleStep hf wc ci ni w)"
proof -
  have "chainsFrom hf c0 i0 (fold (\<lambda>p. extendFirst (ci, fst p) (ni, snd p)) ps w)"
    if "\<forall>p\<in>set ps. snd p < length (columnAt hf ni)" "chainsFrom hf c0 i0 w" for ps w
    using that
  proof (induction ps arbitrary: w)
    case Nil
    then show ?case by simp
  next
    case (Cons p ps)
    have "chainsFrom hf c0 i0 (extendFirst (ci, fst p) (ni, snd p) w)"
      using Cons.prems by (intro chainsFrom_extendFirst assms(2)) simp_all
    then show ?case
      using Cons.IH Cons.prems(1) by simp
  qed
  then show ?thesis
    unfolding sampleStep_pairs using assms(1) stepPairs_valid by blast
qed

lemma chainsFrom_sampleLoop:
  assumes "chainsFrom hf c0 i0 w" and "\<forall>p\<ge>nb. columnOf p \<noteq> c0"
  shows "chainsFrom hf c0 i0 (sampleLoop hf wc limit columnOf n cur nb w)"
  using assms
proof (induction n arbitrary: cur nb w)
  case 0
  then show ?case by simp
next
  case (Suc n)
  have 1: "chainsFrom hf c0 i0 (sampleStep hf wc (columnOf cur) (columnOf nb) w)"
    using Suc.prems by (intro chainsFrom_sampleStep) simp_all
  have 2: "\<forall>p\<ge>nb + 1. columnOf p \<noteq> c0"
    using Suc.prems(2) by simp
  show ?case
    using Suc.prems(1) Suc.IH [OF 1 2] by simp
qed

lemma chainsFrom_buildChainsX: "chainsFrom hf (x + z * xSize) i (buildChainsX hf wc xSize x z i)"
  unfolding buildChainsX_def
  by (rule chainsFrom_sampleLoop [OF chainsFrom_init]) (auto split: if_splits)

lemma chainsFrom_buildChainsZ:
  "0 < xSize \<Longrightarrow> chainsFrom hf (x + z * xSize) i (buildChainsZ hf wc xSize zSize x z i)"
  unfolding buildChainsZ_def
  by (rule chainsFrom_sampleLoop [OF chainsFrom_init]) (auto split: if_splits)

lemma chainsFrom_fresh:
  assumes "chainsFrom hf c0 i0 w"
  shows "\<forall>ch\<in>set w. ch \<noteq> []" and "\<forall>k<length w. \<forall>k'<k. hd (w ! k) \<notin> set (w ! k')"
    and "\<forall>ch\<in>set w. \<forall>r\<in>set ch. snd r < length (columnAt hf (fst r))"
proof -
  show "\<forall>ch\<in>set w. ch \<noteq> []"
    using assms by (auto simp: chainsFrom_def in_set_conv_nth)
  show "\<forall>ch\<in>set w. \<forall>r\<in>set ch. snd r < length (columnAt hf (fst r))"
  proof (intro ballI)
    fix ch r assume "ch \<in> set w" and r: "r \<in> set ch"
    then obtain k where k: "k < length w" "w ! k = ch"
      unfolding in_set_conv_nth by blast
    have "\<forall>r\<in>set (w ! k). snd r < length (columnAt hf (fst r))"
      using assms k(1) by (simp add: chainsFrom_def)
    then show "snd r < length (columnAt hf (fst r))"
      using k(2) r by simp
  qed
  show "\<forall>k<length w. \<forall>k'<k. hd (w ! k) \<notin> set (w ! k')"
  proof (intro allI impI)
    fix k k' assume k: "k < length w" and k': "k' < k"
    have a: "hd (w ! k) = (c0, i0 + k)"
      using assms k by (simp add: chainsFrom_def)
    have "k' < length w"
      using k k' by simp
    then have b: "w ! k' \<noteq> []" "hd (w ! k') = (c0, i0 + k')" "\<forall>r\<in>set (tl (w ! k')). fst r \<noteq> c0"
      using assms by (simp_all add: chainsFrom_def)
    have "set (w ! k') = insert (hd (w ! k')) (set (tl (w ! k')))"
      using b(1) by (cases "w ! k'") simp_all
    then show "hd (w ! k) \<notin> set (w ! k')"
      using a b k' by auto
  qed
qed

lemma chainsFrom_effect:
  assumes "chainsFrom hf c0 i0 chs"
  shows "area (spanAt (EvaluateRuggedArea chs thr rid hf) (c, j)) =
           (if \<exists>ch\<in>set chs. (c, j) \<in> set ch \<and> chainRugged thr hf ch then rid
            else area (spanAt hf (c, j)))"
proof -
  note f = chainsFrom_fresh [OF assms]
  have "j < length (columnAt hf c)" if "ch \<in> set chs" "(c, j) \<in> set ch" for ch
    using f(3) that by fastforce
  then show ?thesis
    using EvaluateRuggedArea_effect [OF f(1) f(2), of thr rid hf] by auto
qed

lemma ruggedPassX_area:
  "area (spanAt (ruggedPassX wc thr rid xSize x z i hf) (c, j)) =
     (if \<exists>ch\<in>set (buildChainsX hf wc xSize x z i). (c, j) \<in> set ch \<and> chainRugged thr hf ch then rid
      else area (spanAt hf (c, j)))"
  unfolding ruggedPassX_def by (rule chainsFrom_effect [OF chainsFrom_buildChainsX])

lemma ruggedPassZ_area:
  "0 < xSize \<Longrightarrow>
   area (spanAt (ruggedPassZ wc thr rid xSize zSize x z i hf) (c, j)) =
     (if \<exists>ch\<in>set (buildChainsZ hf wc xSize zSize x z i). (c, j) \<in> set ch \<and> chainRugged thr hf ch then rid
      else area (spanAt hf (c, j)))"
  unfolding ruggedPassZ_def by (rule chainsFrom_effect [OF chainsFrom_buildChainsZ])

text \<open>
  Claim C3, as the code has it. A chain whose first span does not have the area
  \<open>RC_WALKABLE_AREA\<close> is skipped, and so is a chain of length 1. Otherwise the sum of
  the absolute differences of successive floors \<open>smax\<close> is divided, in single-precision
  floating point, by the number of steps, the chain length minus one; if the rounded
  quotient is at least \<open>SlopeThreshold\<close>, every span of the chain gets the area
  \<open>RuggedAreaID\<close> and no other span changes. After the x-axis pass of an origin span a
  span has the area \<open>RuggedAreaID\<close> if it is in a chain of that pass that meets the test
  on the heightfield before the pass, and the area it had otherwise; so for the z-axis
  pass, on a grid of positive width. For an origin span the z-axis pass runs only if its
  area is not \<open>RuggedAreaID\<close> after the x-axis pass.
\<close>

theorem C3_evaluate_rugged_area:
  assumes "ch \<noteq> []" and "0 < xSize"
  shows "evaluateChain SlopeThreshold RuggedAreaID ch hf =
           (if area (spanAt hf (hd ch)) \<noteq> RC_WALKABLE_AREA then hf
            else if length ch = 1 then hf
            else if float32 (float32 (of_int (sum_list (stepHeights hf ch))) / float32 (of_nat (length ch - 1)))
                      \<ge> SlopeThreshold
            then markChain RuggedAreaID ch hf
            else hf) \<and>
         area (spanAt (markChain RuggedAreaID ch hf) (c, i)) =
           (if (c, i) \<in> set ch \<and> i < length (columnAt hf c) then RuggedAreaID else area (spanAt hf (c, i))) \<and>
         area (spanAt (ruggedPassX walkableClimb SlopeThreshold RuggedAreaID xSize x z j hf) (c, i)) =
           (if \<exists>ch'\<in>set (buildChainsX hf walkableClimb xSize x z j).
                 (c, i) \<in> set ch' \<and> chainRugged SlopeThreshold hf ch'
            then RuggedAreaID else area (spanAt hf (c, i))) \<and>
         area (spanAt (ruggedPassZ walkableClimb SlopeThreshold RuggedAreaID xSize zSize x z j hf) (c, i)) =
           (if \<exists>ch'\<in>set (buildChainsZ hf walkableClimb xSize zSize x z j).
                 (c, i) \<in> set ch' \<and> chainRugged SlopeThreshold hf ch'
            then RuggedAreaID else area (spanAt hf (c, i))) \<and>
         ruggedSpan walkableClimb SlopeThreshold RuggedAreaID xSize zSize x z j hf =
           (if area (spanAt hf (x + z * xSize, j)) = RC_NULL_AREA then hf
            else if area (spanAt (ruggedPassX walkableClimb SlopeThreshold RuggedAreaID xSize x z j hf) (x + z * xSize, j))
                      = RuggedAreaID
            then ruggedPassX walkableClimb SlopeThreshold RuggedAreaID xSize x z j hf
            else ruggedPassZ walkableClimb SlopeThreshold RuggedAreaID xSize zSize x z j
                   (ruggedPassX walkableClimb SlopeThreshold RuggedAreaID xSize x z j hf))"
proof -
  have len: "1 < length ch \<longleftrightarrow> length ch \<noteq> 1"
    using assms(1) by (cases ch) auto
  have 1: "evaluateChain SlopeThreshold RuggedAreaID ch hf =
           (if area (spanAt hf (hd ch)) \<noteq> RC_WALKABLE_AREA then hf
            else if length ch = 1 then hf
            else if float32 (float32 (of_int (sum_list (stepHeights hf ch))) / float32 (of_nat (length ch - 1)))
                      \<ge> SlopeThreshold
            then markChain RuggedAreaID ch hf
            else hf)"
    unfolding evaluateChain_eq [OF assms(1)] chainRugged_def len by simp
  have 5: "ruggedSpan walkableClimb SlopeThreshold RuggedAreaID xSize zSize x z j hf =
           (if area (spanAt hf (x + z * xSize, j)) = RC_NULL_AREA then hf
            else if area (spanAt (ruggedPassX walkableClimb SlopeThreshold RuggedAreaID xSize x z j hf) (x + z * xSize, j))
                      = RuggedAreaID
            then ruggedPassX walkableClimb SlopeThreshold RuggedAreaID xSize x z j hf
            else ruggedPassZ walkableClimb SlopeThreshold RuggedAreaID xSize zSize x z j
                   (ruggedPassX walkableClimb SlopeThreshold RuggedAreaID xSize x z j hf))"
    by (simp add: ruggedSpan_def Let_def)
  from 1 markChain_area ruggedPassX_area ruggedPassZ_area [OF assms(2)] 5 show ?thesis
    by (intro conjI)
qed

text \<open>A step of height 2 along x and one along z, against the threshold 1.5: the chain of
  the step is relabelled by the pass along its axis, and the z-axis pass is left out for an
  origin span that the x-axis pass has relabelled.\<close>

theorem C3_evaluate_rugged_area_witness:
  "evaluateChain (3 / 2) 5 [(0, 0), (1, 0)] stepExample = markChain 5 [(0, 0), (1, 0)] stepExample \<and>
   area (spanAt (markChain 5 [(0, 0), (1, 0)] stepExample) (1, 0)) = 5 \<and>
   area (spanAt (ruggedPassX 3 (3 / 2) 5 2 0 0 0 stepExample) (1, 0)) = 5 \<and>
   area (spanAt (ruggedPassZ 3 (3 / 2) 5 2 2 0 0 0 turnExample) (2, 0)) = 5 \<and>
   area (spanAt (ruggedPassX 3 (3 / 2) 5 2 0 0 0 turnExample) (1, 0)) = 63 \<and>
   ruggedSpan 3 (3 / 2) 5 2 1 0 0 0 stepExample = ruggedPassX 3 (3 / 2) 5 2 0 0 0 stepExample"
proof -
  have h: "[(0, 0), (1, 0)] \<noteq> ([] :: spanRef list)" "0 < (2::nat)"
    by simp_all
  have col: "columnAt stepExample 0 = [\<lparr>smin = 0, smax = 10, area = 63\<rparr>]"
    "columnAt stepExample (Suc 0) = [\<lparr>smin = 0, smax = 12, area = 63\<rparr>]"
    by (simp_all add: stepExample_def columnAt_def)
  have s: "stepHeights stepExample [(0, 0), (1, 0)] = [2]"
    by (simp add: stepHeights_def spanAt_def col)
  have a: "area (spanAt stepExample (0, 0)) = RC_WALKABLE_AREA" "area (spanAt stepExample (0, 0)) \<noteq> RC_NULL_AREA"
    by (simp_all add: spanAt_def col RC_WALKABLE_AREA_def RC_NULL_AREA_def)
  have f: "float32 (float32 2 / float32 1) \<ge> 3 / 2"
    by code_simp
  have bx: "buildChainsX stepExample 3 2 0 0 0 = [[(0, 0), (1, 0)]]"
    by code_simp
  have rx: "chainRugged (3 / 2) stepExample [(0, 0), (1, 0)]"
    by code_simp
  have bz: "buildChainsZ turnExample 3 2 2 0 0 0 = [[(0, 0), (2, 0)]]"
    by code_simp
  have rz: "chainRugged (3 / 2) turnExample [(0, 0), (2, 0)]"
    by code_simp
  have tx: "buildChainsX turnExample 3 2 0 0 0 = [[(0, 0), (1, 0)]]"
    by code_simp
  have nx: "\<not> chainRugged (3 / 2) turnExample [(0, 0), (1, 0)]"
    by code_simp
  have t1: "area (spanAt turnExample (1, 0)) = 63"
    by code_simp
  note T = C3_evaluate_rugged_area [where SlopeThreshold = "3 / 2" and RuggedAreaID = 5
      and walkableClimb = 3 and zSize = 1 and x = 0 and z = 0 and j = 0
      and hf = stepExample and c = 1 and i = 0, OF h]
  note T0 = C3_evaluate_rugged_area [where SlopeThreshold = "3 / 2" and RuggedAreaID = 5
      and walkableClimb = 3 and zSize = 1 and x = 0 and z = 0 and j = 0
      and hf = stepExample and c = 0 and i = 0, OF h]
  note U = C3_evaluate_rugged_area [where SlopeThreshold = "3 / 2" and RuggedAreaID = 5
      and walkableClimb = 3 and zSize = 2 and x = 0 and z = 0 and j = 0
      and hf = turnExample and c = 2 and i = 0, OF h]
  note V = C3_evaluate_rugged_area [where SlopeThreshold = "3 / 2" and RuggedAreaID = 5
      and walkableClimb = 3 and zSize = 2 and x = 0 and z = 0 and j = 0
      and hf = turnExample and c = 1 and i = 0, OF h]
  have e: "evaluateChain (3 / 2) 5 [(0, 0), (1, 0)] stepExample = markChain 5 [(0, 0), (1, 0)] stepExample"
    using T [THEN conjunct1] f unfolding s by (simp add: a)
  have m: "area (spanAt (markChain 5 [(0, 0), (1, 0)] stepExample) (1, 0)) = 5"
    using T [THEN conjunct2, THEN conjunct1] by (simp add: col)
  have px: "area (spanAt (ruggedPassX 3 (3 / 2) 5 2 0 0 0 stepExample) (1, 0)) = 5"
    using T [THEN conjunct2, THEN conjunct2, THEN conjunct1] unfolding bx by (simp add: rx [simplified])
  have px0: "area (spanAt (ruggedPassX 3 (3 / 2) 5 2 0 0 0 stepExample) (0, 0)) = 5"
    using T0 [THEN conjunct2, THEN conjunct2, THEN conjunct1] unfolding bx by (simp add: rx [simplified])
  have pz: "area (spanAt (ruggedPassZ 3 (3 / 2) 5 2 2 0 0 0 turnExample) (2, 0)) = 5"
    using U [THEN conjunct2, THEN conjunct2, THEN conjunct2, THEN conjunct1] unfolding bz by (simp add: rz [simplified])
  have qx: "area (spanAt (ruggedPassX 3 (3 / 2) 5 2 0 0 0 turnExample) (1, 0)) = 63"
    using V [THEN conjunct2, THEN conjunct2, THEN conjunct1] unfolding tx by (simp add: nx [simplified] t1 [simplified])
  have g: "ruggedSpan 3 (3 / 2) 5 2 1 0 0 0 stepExample = ruggedPassX 3 (3 / 2) 5 2 0 0 0 stepExample"
    using T [THEN conjunct2, THEN conjunct2, THEN conjunct2, THEN conjunct2] a(2) px0 by simp
  from e m px pz qx g show ?thesis
    by (intro conjI)
qed

text \<open>
  Claim C3 as stated compares the average, the quotient of the two totals, with the
  threshold. On six columns along x with one step of height 1, the chain of the first
  origin span has 5 steps and the total 1. Against the threshold \<open>0.2f\<close>, the
  single-precision number \<open>13421773 / 2 ^ 26\<close> next above \<open>1 / 5\<close>, the average \<open>1 / 5\<close> is
  below the threshold, and the chain is relabelled: the quotient rounds to \<open>0.2f\<close>.
\<close>

theorem C3_evaluate_rugged_area_counterexample:
  "buildChainsX gentleExample 3 6 0 0 0 = [[(0, 0), (1, 0), (2, 0), (3, 0), (4, 0), (5, 0)]] \<and>
   area (spanAt gentleExample (0, 0)) = RC_WALKABLE_AREA \<and>
   sum_list (stepHeights gentleExample [(0, 0), (1, 0), (2, 0), (3, 0), (4, 0), (5, 0)]) = 1 \<and>
   length [(0, 0), (1, 0), (2, 0), (3, 0), (4, 0), (5 :: nat, 0 :: nat)] - 1 = 5 \<and>
   (1 :: rat) / 5 < 13421773 / 67108864 \<and>
   float32 (13421773 / 67108864) = 13421773 / 67108864 \<and>
   evaluateChain (13421773 / 67108864) 5 [(0, 0), (1, 0), (2, 0), (3, 0), (4, 0), (5, 0)] gentleExample =
     markChain 5 [(0, 0), (1, 0), (2, 0), (3, 0), (4, 0), (5, 0)] gentleExample \<and>
   area (spanAt (rcFilterRuggedAreaSpans 2 3 (13421773 / 67108864) 5 gentleExample) (0, 0)) = 5"
  by code_simp

section \<open>The scenarios of the rugged-area pass\<close>

lemma upt10: "[0..<10] = [0, 1, 2, 3, 4, 5, 6, 7, 8, 9]"
  by code_simp

lemma lineExample_relabeled: "lineExample = lineRelabeled RC_WALKABLE_AREA"
  by (simp add: lineExample_def lineRelabeled_def)

text \<open>The single-precision quotients of the scenarios: 2 on the line, whatever the length
  of the chain, and 1 on the single step.\<close>

lemma avgSlope_scenarios:
  "avgSlopeGE 18 9 (3 / 2)" "avgSlopeGE 16 8 (3 / 2)" "avgSlopeGE 14 7 (3 / 2)"
  "avgSlopeGE 12 6 (3 / 2)" "avgSlopeGE 10 5 (3 / 2)" "avgSlopeGE 8 4 (3 / 2)"
  "avgSlopeGE 6 3 (3 / 2)" "avgSlopeGE 4 2 (3 / 2)" "avgSlopeGE 2 1 (3 / 2)"
  "\<not> avgSlopeGE 1 1 (3 / 2)"
  by code_simp+

lemmas rugged_eval =
  ruggedColumn_def ruggedSpan_def ruggedPassX_def ruggedPassZ_def EvaluateRuggedArea_def evaluateChain_def
  chainTotals_def avgSlope_scenarios markChain_def setArea_def
  buildChainsX_def buildChainsZ_def MAX_SLOPE_SAMPLE_STEP_def InitSpanListInColume_def
  columnAt_def sampleStep_def scanNeighborSpans_def spanAt_def eval_nat_numeral
  RC_NULL_AREA_def RC_WALKABLE_AREA_def Let_def

lemma line_origin0: "ruggedColumn 3 (3 / 2) rid 10 1 0 0 lineExample = lineRelabeled rid"
  by (simp add: lineExample_def lineRelabeled_def upt10 rugged_eval)

lemma line_origin_later:
  assumes "x \<in> {1, 2, 3, 4, 5, 6, 7, 8, 9}"
  shows "ruggedColumn 3 (3 / 2) rid 10 1 x 0 (lineRelabeled rid) = lineRelabeled rid"
proof -
  consider "rid = 0" | "rid = 63" | "rid \<noteq> 0" "rid \<noteq> 63"
    by blast
  then show ?thesis
  proof cases
    case 1
    then show ?thesis
      using assms by (auto simp: lineRelabeled_def upt10 rugged_eval)
  next
    case 2
    then show ?thesis
      using assms by (auto simp: lineRelabeled_def upt10 rugged_eval)
  next
    case 3
    then show ?thesis
      using assms by (auto simp: lineRelabeled_def upt10 rugged_eval)
  qed
qed

lemma upt1: "[0..<1] = [0::nat]"
  by simp

lemma upt2: "[0..<2] = [0, 1::nat]"
  by code_simp

lemma line_pass: "rcFilterRuggedAreaSpans wh 3 (3 / 2) rid lineExample = lineRelabeled rid"
proof -
  have w: "width lineExample = 10" "height lineExample = 1"
    by (simp_all add: lineExample_def)
  have l: "ruggedColumn 3 (3 / 2) rid 10 1 1 0 (lineRelabeled rid) = lineRelabeled rid"
    "ruggedColumn 3 (3 / 2) rid 10 1 2 0 (lineRelabeled rid) = lineRelabeled rid"
    "ruggedColumn 3 (3 / 2) rid 10 1 3 0 (lineRelabeled rid) = lineRelabeled rid"
    "ruggedColumn 3 (3 / 2) rid 10 1 4 0 (lineRelabeled rid) = lineRelabeled rid"
    "ruggedColumn 3 (3 / 2) rid 10 1 5 0 (lineRelabeled rid) = lineRelabeled rid"
    "ruggedColumn 3 (3 / 2) rid 10 1 6 0 (lineRelabeled rid) = lineRelabeled rid"
    "ruggedColumn 3 (3 / 2) rid 10 1 7 0 (lineRelabeled rid) = lineRelabeled rid"
    "ruggedColumn 3 (3 / 2) rid 10 1 8 0 (lineRelabeled rid) = lineRelabeled rid"
    "ruggedColumn 3 (3 / 2) rid 10 1 9 0 (lineRelabeled rid) = lineRelabeled rid"
    by (rule line_origin_later, simp)+
  show ?thesis
    unfolding rcFilterRuggedAreaSpans_def Let_def w upt1 upt10
    by (simp only: fold_simps o_apply id_apply line_origin0 l)
qed

lemma single_pass: "rcFilterRuggedAreaSpans wh 3 (3 / 2) rid singleStepExample = singleStepExample"
proof -
  have w: "width singleStepExample = 2" "height singleStepExample = 1"
    by (simp_all add: singleStepExample_def)
  have 0: "ruggedColumn 3 (3 / 2) rid 2 1 0 0 singleStepExample = singleStepExample"
    by (simp add: singleStepExample_def rugged_eval)
  have 1: "ruggedColumn 3 (3 / 2) rid 2 1 1 0 singleStepExample = singleStepExample"
    by (simp add: singleStepExample_def rugged_eval)
  show ?thesis
    unfolding rcFilterRuggedAreaSpans_def Let_def w upt1 upt2
    by (simp only: fold_simps o_apply id_apply 0 1)
qed

text \<open>
  Claim C4, as the code has it. On a line of 10 columns along the x axis, each with one
  span of area \<open>RC_WALKABLE_AREA\<close> and floors rising by 2 from column to column, with
  \<open>walkableClimb = 3\<close> and \<open>SlopeThreshold = 1.5\<close>, \<open>rcFilterRuggedAreaSpans\<close> gives all
  10 spans the area \<open>RuggedAreaID\<close>: the chain of the first origin span holds the origin
  and the 9 spans appended in the 9 sample steps, and its average step is 2. On two
  columns with one step of height 1 no span changes.
\<close>

theorem C4_rugged_scenarios:
  "rcFilterRuggedAreaSpans walkableHeight 3 (3 / 2) RuggedAreaID lineExample = lineRelabeled RuggedAreaID \<and>
   rcFilterRuggedAreaSpans walkableHeight 3 (3 / 2) RuggedAreaID singleStepExample = singleStepExample"
  by (simp only: line_pass single_pass)

text \<open>
  Claim C4 as stated has the first 9 spans of the line reclassified. The tenth span, in
  column 9, is the last element of the chain of the first origin span and gets the rugged
  area id with the others.
\<close>

theorem C4_rugged_scenarios_counterexample:
  "area (spanAt lineExample (9, 0)) = RC_WALKABLE_AREA \<and>
   area (spanAt (rcFilterRuggedAreaSpans 2 3 (3 / 2) 5 lineExample) (9, 0)) = 5"
  by (simp add: line_pass) (simp add: lineExample_def lineRelabeled_def spanAt_def columnAt_def upt10)

section \<open>Demotion only\<close>

lemma pass_only_demotes:
  assumes area: "\<And>x z i. x < width hf \<Longrightarrow>
        area (spanAt (P hf) (x + z * width hf, i)) =
          (if z < height hf \<and> i < length (columnAt hf (x + z * width hf))
           then F x z i (area (spanAt hf (x + z * width hf, i)))
           else area (spanAt hf (x + z * width hf, i)))"
    and w0: "width hf = 0 \<Longrightarrow> P hf = hf"
    and F: "\<And>x z i a. F x z i a = RC_NULL_AREA \<or> F x z i a = a"
  shows "area (spanAt (P hf) (c, i)) = RC_NULL_AREA \<or> area (spanAt (P hf) (c, i)) = area (spanAt hf (c, i))"
proof (cases "width hf = 0")
  case True
  then show ?thesis by (simp add: w0)
next
  case False
  define x z where "x = c mod width hf" and "z = c div width hf"
  have x: "x < width hf" and c: "c = x + z * width hf"
    using False by (simp_all add: x_def z_def)
  show ?thesis
    unfolding c area [OF x] using F by auto
qed

lemma ledge_only_demotes:
  "area (spanAt (rcFilterLedgeSpans wh wc hf) (c, i)) = RC_NULL_AREA \<or>
   area (spanAt (rcFilterLedgeSpans wh wc hf) (c, i)) = area (spanAt hf (c, i))"
  by (rule pass_only_demotes [where F = "ledgeFinal hf wh wc"])
     (simp_all add: rcFilterLedgeSpans_area rcFilterLedgeSpans_width0 ledgeFinal_def)

lemma lowHeight_only_demotes:
  "area (spanAt (rcFilterWalkableLowHeightSpans wh hf) (c, i)) = RC_NULL_AREA \<or>
   area (spanAt (rcFilterWalkableLowHeightSpans wh hf) (c, i)) = area (spanAt hf (c, i))"
  by (rule pass_only_demotes [where F = "lowHeightFinal hf wh"])
     (simp_all add: rcFilterWalkableLowHeightSpans_area rcFilterWalkableLowHeightSpans_width0 lowHeightFinal_def)

text \<open>
  Claim C9. Running \<open>rcFilterWalkableLowHeightSpans\<close> twice gives the heightfield of
  running it once, and so does running \<open>rcFilterLedgeSpans\<close> twice, with the same
  parameters. Both passes only demote: a span ends with the area \<open>RC_NULL_AREA\<close> or
  with the area it had.
\<close>

theorem C9_idempotence:
  "rcFilterWalkableLowHeightSpans walkableHeight (rcFilterWalkableLowHeightSpans walkableHeight hf)
     = rcFilterWalkableLowHeightSpans walkableHeight hf \<and>
   rcFilterLedgeSpans walkableHeight walkableClimb (rcFilterLedgeSpans walkableHeight walkableClimb hf)
     = rcFilterLedgeSpans walkableHeight walkableClimb hf \<and>
   (area (spanAt (rcFilterWalkableLowHeightSpans walkableHeight hf) (c, i)) = RC_NULL_AREA \<or>
    area (spanAt (rcFilterWalkableLowHeightSpans walkableHeight hf) (c, i)) = area (spanAt hf (c, i))) \<and>
   (area (spanAt (rcFilterLedgeSpans walkableHeight walkableClimb hf) (c, i)) = RC_NULL_AREA \<or>
    area (spanAt (rcFilterLedgeSpans walkableHeight walkableClimb hf) (c, i)) = area (spanAt hf (c, i)))"
  using lowHeight_only_demotes [of walkableHeight hf c i] ledge_only_demotes [of walkableHeight walkableClimb hf c i]
  by (simp only: rcFilterWalkableLowHeightSpans_idem rcFilterLedgeSpans_idem simp_thms)

section \<open>The ledge decision without the order of the scan\<close>

lemma qualifyingFloors_Nil [simp]: "qualifyingFloors wh f c [] = []"
  by (simp add: qualifyingFloors_def)

lemma qualifyingFloors_Cons:
  "qualifyingFloors wh f c (n # ns) =
     (if overlap f c (n # ns) 0 < wh then [] else [int (smax n)]) @ qualifyingFloors wh f c ns"
proof -
  have u: "[0..<length (n # ns)] = 0 # map Suc [0..<length ns]"
    by (simp add: upt_conv_Cons map_Suc_upt del: upt_Suc)
  show ?thesis
    unfolding qualifyingFloors_def u
    by (simp add: filter_map o_def overlap_Cons_Suc)
qed

lemma scanNeighborColumn_fst_le: "fst (scanNeighborColumn wh wc f c ns (l, lo, hi)) \<le> l"
proof (induction ns arbitrary: l lo hi)
  case Nil
  show ?case by simp
next
  case (Cons n ns)
  have "fst (scanNeighborColumn wh wc f c ns (min l (int (smax n) - f), lo', hi')) \<le> l" for lo' hi'
    using Cons.IH [of "min l (int (smax n) - f)" lo' hi'] by simp
  then show ?case
    unfolding scanNeighborColumn_Cons using Cons.IH [of l lo hi] by simp
qed

lemma scanNeighborColumn_steep:
  assumes "\<exists>nf\<in>set (qualifyingFloors wh f c ns). nf - f < - wc"
  shows "fst (scanNeighborColumn wh wc f c ns (l, lo, hi)) < - wc"
  using assms
proof (induction ns arbitrary: l lo hi)
  case Nil
  then show ?case by simp
next
  case (Cons n ns)
  show ?case
  proof (cases "overlap f c (n # ns) 0 < wh")
    case True
    then have "\<exists>nf\<in>set (qualifyingFloors wh f c ns). nf - f < - wc"
      using Cons.prems by (simp add: qualifyingFloors_Cons)
    then show ?thesis
      unfolding scanNeighborColumn_Cons using True Cons.IH by simp
  next
    case False
    show ?thesis
    proof (cases "int (smax n) - f < - wc")
      case True
      have "fst (scanNeighborColumn wh wc f c ns (min l (int (smax n) - f), lo', hi')) < - wc" for lo' hi'
        using scanNeighborColumn_fst_le [of wh wc f c ns "min l (int (smax n) - f)" lo' hi'] True by simp
      moreover have "\<not> \<bar>int (smax n) - f\<bar> \<le> wc"
        using True by linarith
      ultimately show ?thesis
        unfolding scanNeighborColumn_Cons using False True by simp
    next
      case nst: False
      then have "\<exists>nf\<in>set (qualifyingFloors wh f c ns). nf - f < - wc"
        using Cons.prems False by (simp add: qualifyingFloors_Cons)
      then show ?thesis
        unfolding scanNeighborColumn_Cons using False nst Cons.IH by simp
    qed
  qed
qed

lemma scanNeighborColumn_all:
  assumes "\<forall>nf\<in>set (qualifyingFloors wh f c ns). \<not> nf - f < - wc"
  shows "scanNeighborColumn wh wc f c ns (l, lo, hi) =
           (fold min (map (\<lambda>nf. nf - f) (qualifyingFloors wh f c ns)) l,
            fold min (filter (\<lambda>nf. \<bar>nf - f\<bar> \<le> wc) (qualifyingFloors wh f c ns)) lo,
            fold max (filter (\<lambda>nf. \<bar>nf - f\<bar> \<le> wc) (qualifyingFloors wh f c ns)) hi)"
  using assms
proof (induction ns arbitrary: l lo hi)
  case Nil
  show ?case by simp
next
  case (Cons n ns)
  have rest: "\<forall>nf\<in>set (qualifyingFloors wh f c ns). \<not> nf - f < - wc"
    using Cons.prems by (simp add: qualifyingFloors_Cons)
  show ?case
  proof (cases "overlap f c (n # ns) 0 < wh")
    case True
    then show ?thesis
      unfolding scanNeighborColumn_Cons by (simp add: qualifyingFloors_Cons Cons.IH [OF rest])
  next
    case False
    then have "\<not> int (smax n) - f < - wc"
      using Cons.prems by (simp add: qualifyingFloors_Cons)
    then show ?thesis
      unfolding scanNeighborColumn_Cons using False
      by (simp add: qualifyingFloors_Cons Cons.IH [OF rest] min.commute max.commute)
  qed
qed

lemma neighborFloors_Nil [simp]: "neighborFloors hf wh xs zs x z f c [] = []"
  by (simp add: neighborFloors_def)

lemma neighborFloors_Cons:
  "neighborFloors hf wh xs zs x z f c (d # ds) =
     (if neighborOutOfBounds xs zs x z d then []
      else qualifyingFloors wh f c (neighborColumn hf xs x z d)) @ neighborFloors hf wh xs zs x z f c ds"
  by (simp add: neighborFloors_def)

lemma scanDirections_fst_le:
  "fst (scanDirections hf wh wc xs zs x z f c ds (l, lo, hi)) \<le> l \<or>
   fst (scanDirections hf wh wc xs zs x z f c ds (l, lo, hi)) = - wc - 1"
proof (induction ds arbitrary: l lo hi)
  case Nil
  show ?case by simp
next
  case (Cons d ds)
  obtain l' lo' hi' where s: "scanNeighborColumn wh wc f c (neighborColumn hf xs x z d) (l, lo, hi) = (l', lo', hi')"
    by (cases "scanNeighborColumn wh wc f c (neighborColumn hf xs x z d) (l, lo, hi)")
  have "l' \<le> l"
    using scanNeighborColumn_fst_le [of wh wc f c "neighborColumn hf xs x z d" l lo hi] s by simp
  then show ?case
    unfolding scanDirections_Cons s using Cons.IH [of l' lo' hi'] by auto
qed

lemma scanDirections_steep:
  assumes "l < - wc \<or> (\<exists>nf\<in>set (neighborFloors hf wh xs zs x z f c ds). nf - f < - wc)"
  shows "fst (scanDirections hf wh wc xs zs x z f c ds (l, lo, hi)) < - wc"
  using assms
proof (induction ds arbitrary: l lo hi)
  case Nil
  then show ?case by simp
next
  case (Cons d ds)
  show ?case
  proof (cases "neighborOutOfBounds xs zs x z d \<or> min c (subFloorCeiling (neighborColumn hf xs x z d)) - f \<ge> wh")
    case True
    then show ?thesis
      unfolding scanDirections_Cons by auto
  next
    case False
    obtain l' lo' hi' where s: "scanNeighborColumn wh wc f c (neighborColumn hf xs x z d) (l, lo, hi) = (l', lo', hi')"
      by (cases "scanNeighborColumn wh wc f c (neighborColumn hf xs x z d) (l, lo, hi)")
    have le: "l' \<le> l"
      using scanNeighborColumn_fst_le [of wh wc f c "neighborColumn hf xs x z d" l lo hi] s by simp
    have "l' < - wc \<or> (\<exists>nf\<in>set (neighborFloors hf wh xs zs x z f c ds). nf - f < - wc)"
    proof (cases "\<exists>nf\<in>set (qualifyingFloors wh f c (neighborColumn hf xs x z d)). nf - f < - wc")
      case True
      then show ?thesis
        using scanNeighborColumn_steep [of wh f c "neighborColumn hf xs x z d" wc l lo hi] s by simp
    next
      case nst: False
      then show ?thesis
        using Cons.prems False le by (auto simp: neighborFloors_Cons)
    qed
    from Cons.IH [OF this] show ?thesis
      unfolding scanDirections_Cons s using False by simp
  qed
qed

lemma scanDirections_all:
  assumes "\<forall>d\<in>set ds. \<not> (neighborOutOfBounds xs zs x z d \<or>
              min c (subFloorCeiling (neighborColumn hf xs x z d)) - f \<ge> wh)"
    and "\<forall>nf\<in>set (neighborFloors hf wh xs zs x z f c ds). \<not> nf - f < - wc"
  shows "scanDirections hf wh wc xs zs x z f c ds (l, lo, hi) =
           (fold min (map (\<lambda>nf. nf - f) (neighborFloors hf wh xs zs x z f c ds)) l,
            fold min (filter (\<lambda>nf. \<bar>nf - f\<bar> \<le> wc) (neighborFloors hf wh xs zs x z f c ds)) lo,
            fold max (filter (\<lambda>nf. \<bar>nf - f\<bar> \<le> wc) (neighborFloors hf wh xs zs x z f c ds)) hi)"
  using assms
proof (induction ds arbitrary: l lo hi)
  case Nil
  show ?case by simp
next
  case (Cons d ds)
  have d: "\<not> neighborOutOfBounds xs zs x z d" "\<not> min c (subFloorCeiling (neighborColumn hf xs x z d)) - f \<ge> wh"
    using Cons.prems(1) by simp_all
  have col: "\<forall>nf\<in>set (qualifyingFloors wh f c (neighborColumn hf xs x z d)). \<not> nf - f < - wc"
    using Cons.prems(2) d by (simp add: neighborFloors_Cons)
  have rest: "\<forall>d\<in>set ds. \<not> (neighborOutOfBounds xs zs x z d \<or>
              min c (subFloorCeiling (neighborColumn hf xs x z d)) - f \<ge> wh)"
    "\<forall>nf\<in>set (neighborFloors hf wh xs zs x z f c ds). \<not> nf - f < - wc"
    using Cons.prems d by (simp_all add: neighborFloors_Cons)
  show ?case
    unfolding scanDirections_Cons scanNeighborColumn_all [OF col] Cons.IH [OF rest]
    using d by (simp add: neighborFloors_Cons)
qed

lemma fold_min_ge:
  fixes l :: int
  assumes "b \<le> l" and "\<forall>v\<in>set vs. b \<le> v"
  shows "b \<le> fold min vs l"
  using assms by (induction vs arbitrary: l) simp_all

lemma fold_min_Min: "fold min vs (a::int) = Min (set (a # vs))"
  by (rule Min.set_eq_fold [symmetric])

lemma fold_max_Max: "fold max vs (a::int) = Max (set (a # vs))"
  by (rule Max.set_eq_fold [symmetric])

lemma ledgeDemotes_criterion:
  assumes wc: "0 \<le> wc"
  shows "ledgeDemotes hf wh wc x z i \<longleftrightarrow> ledgeCriterion hf wh wc x z i"
proof -
  define f where "f = int (smax (columnAt hf (x + z * width hf) ! i))"
  define c where "c = nextSmin (columnAt hf (x + z * width hf)) i"
  define fl where "fl = neighborFloors hf wh (width hf) (height hf) x z f c [0, 1, 2, 3]"
  define tr where "tr = filter (\<lambda>nf. \<bar>nf - f\<bar> \<le> wc) fl"
  let ?exit = "\<exists>d\<in>{0, 1, 2, 3}. neighborOutOfBounds (width hf) (height hf) x z d \<or>
      min c (subFloorCeiling (neighborColumn hf (width hf) x z d)) - f \<ge> wh"
  let ?steep = "\<exists>nf\<in>set fl. nf - f < - wc"
  let ?spread = "Max (set (f # tr)) - Min (set (f # tr)) > wc"
  have crit: "ledgeCriterion hf wh wc x z i \<longleftrightarrow> ?exit \<or> ?steep \<or> ?spread"
    unfolding ledgeCriterion_def Let_def f_def c_def fl_def tr_def ..
  have scan: "ledgeScan hf wh wc (width hf) (height hf) x z i =
      scanDirections hf wh wc (width hf) (height hf) x z f c [0, 1, 2, 3] (MAX_HEIGHTFIELD_HEIGHT, f, f)"
    by (simp add: ledgeScan_def Let_def f_def c_def)
  show ?thesis
  proof (cases ?exit)
    case True
    then obtain d :: nat where d: "d \<in> {0, 1, 2, 3}"
      and e: "neighborOutOfBounds (width hf) (height hf) x z d \<or>
           min c (subFloorCeiling (neighborColumn hf (width hf) x z d)) - f \<ge> wh"
      by blast
    from d have "d < 4"
      by auto
    then have "ledgeDemotes hf wh wc x z i"
      using e unfolding f_def c_def by (rule ledgeDemotes_exit)
    then show ?thesis
      using True crit by simp
  next
    case noexit: False
    show ?thesis
    proof (cases ?steep)
      case True
      then have "fst (ledgeScan hf wh wc (width hf) (height hf) x z i) < - wc"
        unfolding scan fl_def by (intro scanDirections_steep) simp
      then have "ledgeDemotes hf wh wc x z i"
        by (auto simp: ledgeDemotes_def split: prod.splits)
      then show ?thesis
        using True crit by simp
    next
      case nosteep: False
      have 1: "\<forall>d\<in>set [0, 1, 2, 3]. \<not> (neighborOutOfBounds (width hf) (height hf) x z d \<or>
              min c (subFloorCeiling (neighborColumn hf (width hf) x z d)) - f \<ge> wh)"
        using noexit by simp
      have 2: "\<forall>nf\<in>set (neighborFloors hf wh (width hf) (height hf) x z f c [0, 1, 2, 3]). \<not> nf - f < - wc"
        using nosteep by (simp add: fl_def)
      have res: "ledgeScan hf wh wc (width hf) (height hf) x z i =
          (fold min (map (\<lambda>nf. nf - f) fl) MAX_HEIGHTFIELD_HEIGHT, fold min tr f, fold max tr f)"
        unfolding scan scanDirections_all [OF 1 2] fl_def tr_def ..
      have "- wc \<le> fold min (map (\<lambda>nf. nf - f) fl) MAX_HEIGHTFIELD_HEIGHT"
      proof (rule fold_min_ge)
        show "- wc \<le> MAX_HEIGHTFIELD_HEIGHT"
          using wc by (simp add: MAX_HEIGHTFIELD_HEIGHT_def)
        show "\<forall>v\<in>set (map (\<lambda>nf. nf - f) fl). - wc \<le> v"
          using nosteep by auto
      qed
      then have "ledgeDemotes hf wh wc x z i \<longleftrightarrow> fold max tr f - fold min tr f > wc"
        by (simp add: ledgeDemotes_def res)
      also have "\<dots> \<longleftrightarrow> ?spread"
        by (simp only: fold_min_Min fold_max_Max)
      finally show ?thesis
        using noexit nosteep crit by simp
    qed
  qed
qed

section \<open>The decision of rcFilterLedgeSpans\<close>

text \<open>
  Claim C1. Let \<open>(lnfd, lo, hi)\<close> be the values of \<open>lowestNeighborFloorDifference\<close>,
  \<open>lowestTraversableNeighborFloor\<close> and \<open>highestTraversableNeighborFloor\<close> after the scan
  of the four directions for a walkable span. \<open>rcFilterLedgeSpans\<close> sets the span to
  \<open>RC_NULL_AREA\<close> if and only if \<open>lnfd < - walkableClimb\<close> or \<open>hi - lo > walkableClimb\<close>;
  otherwise the area is unchanged. If no span of a neighbour column inside the grid
  overlaps the span by \<open>walkableHeight\<close> or more, then \<open>lo\<close> and \<open>hi\<close> are the
  span's own floor and the span is set to \<open>RC_NULL_AREA\<close> only by the first condition.
  Whatever the order of the scan, the span is set to \<open>RC_NULL_AREA\<close> if and only if
  \<open>ledgeCriterion\<close> holds: an early exit, an overlapping neighbour floor more than
  \<open>walkableClimb\<close> below the span, or traversable floors spread over more than
  \<open>walkableClimb\<close>.
\<close>

theorem C1_ledge_decision:
  assumes "0 \<le> walkableClimb"
    and "x < width hf" and "z < height hf"
    and "i < length (columnAt hf (x + z * width hf))"
    and "area (spanAt hf (x + z * width hf, i)) \<noteq> RC_NULL_AREA"
    and "ledgeScan hf walkableHeight walkableClimb (width hf) (height hf) x z i = (lnfd, lo, hi)"
  shows "(area (spanAt (rcFilterLedgeSpans walkableHeight walkableClimb hf) (x + z * width hf, i)) = RC_NULL_AREA
            \<longleftrightarrow> lnfd < - walkableClimb \<or> hi - lo > walkableClimb) \<and>
         (area (spanAt (rcFilterLedgeSpans walkableHeight walkableClimb hf) (x + z * width hf, i)) \<noteq> RC_NULL_AREA
            \<longrightarrow> area (spanAt (rcFilterLedgeSpans walkableHeight walkableClimb hf) (x + z * width hf, i))
                  = area (spanAt hf (x + z * width hf, i))) \<and>
         ((\<forall>d\<in>{0, 1, 2, 3}. \<not> neighborOutOfBounds (width hf) (height hf) x z d \<longrightarrow>
              (\<forall>j<length (neighborColumn hf (width hf) x z d).
                 overlap (int (smax (columnAt hf (x + z * width hf) ! i))) (nextSmin (columnAt hf (x + z * width hf)) i)
                   (neighborColumn hf (width hf) x z d) j < walkableHeight))
            \<longrightarrow> lo = int (smax (columnAt hf (x + z * width hf) ! i)) \<and>
                hi = int (smax (columnAt hf (x + z * width hf) ! i)) \<and>
                (area (spanAt (rcFilterLedgeSpans walkableHeight walkableClimb hf) (x + z * width hf, i)) = RC_NULL_AREA
                   \<longleftrightarrow> lnfd < - walkableClimb)) \<and>
         (area (spanAt (rcFilterLedgeSpans walkableHeight walkableClimb hf) (x + z * width hf, i)) = RC_NULL_AREA
            \<longleftrightarrow> ledgeCriterion hf walkableHeight walkableClimb x z i)"
proof -
  let ?c = "x + z * width hf"
  let ?after = "area (spanAt (rcFilterLedgeSpans walkableHeight walkableClimb hf) (?c, i))"
  have fin: "?after = ledgeFinal hf walkableHeight walkableClimb x z i (area (spanAt hf (?c, i)))"
    using assms(2-4) by (simp add: rcFilterLedgeSpans_area)
  have dem: "ledgeDemotes hf walkableHeight walkableClimb x z i \<longleftrightarrow> lnfd < - walkableClimb \<or> hi - lo > walkableClimb"
    by (simp add: ledgeDemotes_def assms(6))
  have A: "?after = RC_NULL_AREA \<longleftrightarrow> lnfd < - walkableClimb \<or> hi - lo > walkableClimb"
    using assms(5) by (simp add: fin ledgeFinal_def dem)
  have B: "?after \<noteq> RC_NULL_AREA \<longrightarrow> ?after = area (spanAt hf (?c, i))"
    by (simp add: fin ledgeFinal_def)
  have C: "lo = int (smax (columnAt hf ?c ! i)) \<and> hi = int (smax (columnAt hf ?c ! i)) \<and>
           (?after = RC_NULL_AREA \<longleftrightarrow> lnfd < - walkableClimb)"
    if none: "\<forall>d\<in>{0, 1, 2, 3}. \<not> neighborOutOfBounds (width hf) (height hf) x z d \<longrightarrow>
              (\<forall>j<length (neighborColumn hf (width hf) x z d).
                 overlap (int (smax (columnAt hf ?c ! i))) (nextSmin (columnAt hf ?c) i)
                   (neighborColumn hf (width hf) x z d) j < walkableHeight)"
  proof -
    have "\<forall>d\<in>set [0, 1, 2, 3]. \<not> neighborOutOfBounds (width hf) (height hf) x z d \<longrightarrow>
              (\<forall>j<length (neighborColumn hf (width hf) x z d).
                 overlap (int (smax (columnAt hf ?c ! i))) (nextSmin (columnAt hf ?c) i)
                   (neighborColumn hf (width hf) x z d) j < walkableHeight)"
      using none by simp
    from scanDirections_none [OF this, of walkableClimb MAX_HEIGHTFIELD_HEIGHT
        "int (smax (columnAt hf ?c ! i))" "int (smax (columnAt hf ?c ! i))"]
    have "lo = int (smax (columnAt hf ?c ! i)) \<and> hi = int (smax (columnAt hf ?c ! i))"
      using assms(6) unfolding ledgeScan_def Let_def by auto
    then show ?thesis
      using A assms(1) by auto
  qed
  have D: "?after = RC_NULL_AREA \<longleftrightarrow> ledgeCriterion hf walkableHeight walkableClimb x z i"
    using assms(5) by (simp add: fin ledgeFinal_def ledgeDemotes_criterion [OF assms(1)])
  from A B C D show ?thesis by blast
qed

text \<open>The bottom span of the centre column of a 3 by 3 grid: its ceiling is too low for
  any neighbour span to overlap it by the walkable height, and it stays walkable.\<close>

theorem C1_ledge_decision_witness:
  "ledgeScan ledgeExample2 5 1 3 3 1 1 0 = (65535, 10, 10) \<and>
   area (spanAt (rcFilterLedgeSpans 5 1 ledgeExample2) (4, 0)) = 1"
proof -
  have c: "1 + 1 * width ledgeExample2 = 4"
    by (simp add: ledgeExample2_simps)
  have h0: "(0::int) \<le> 1"
    by simp
  have h1: "1 < width ledgeExample2" and h2: "1 < height ledgeExample2"
    by (simp_all add: ledgeExample2_simps)
  have h3: "0 < length (columnAt ledgeExample2 (1 + 1 * width ledgeExample2))"
    unfolding c by (simp add: ledgeExample2_simps)
  have h4: "area (spanAt ledgeExample2 (1 + 1 * width ledgeExample2, 0)) \<noteq> RC_NULL_AREA"
    unfolding c by (simp add: ledgeExample2_simps spanAt_def RC_NULL_AREA_def)
  have h5: "ledgeScan ledgeExample2 5 1 (width ledgeExample2) (height ledgeExample2) 1 1 0 = (65535, 10, 10)"
    using ledgeExample2_scan by (simp add: ledgeExample2_simps)
  have h6: "\<forall>d\<in>{0, 1, 2, 3}. \<not> neighborOutOfBounds (width ledgeExample2) (height ledgeExample2) 1 1 d \<longrightarrow>
              (\<forall>j<length (neighborColumn ledgeExample2 (width ledgeExample2) 1 1 d).
                 overlap (int (smax (columnAt ledgeExample2 (1 + 1 * width ledgeExample2) ! 0)))
                   (nextSmin (columnAt ledgeExample2 (1 + 1 * width ledgeExample2)) 0)
                   (neighborColumn ledgeExample2 (width ledgeExample2) 1 1 d) j < 5)"
    unfolding c
    by (simp add: ledgeExample2_simps neighborColumn_def rcGetDirOffsetX_def rcGetDirOffsetY_def
          overlap_def nextSmin_def MAX_HEIGHTFIELD_HEIGHT_def)
  have a: "area (spanAt ledgeExample2 (4, 0)) = 1"
    by (simp add: ledgeExample2_simps spanAt_def)
  from C1_ledge_decision [OF h0 h1 h2 h3 h4 h5] h6
  have "area (spanAt (rcFilterLedgeSpans 5 1 ledgeExample2) (1 + 1 * width ledgeExample2, 0))
          = area (spanAt ledgeExample2 (1 + 1 * width ledgeExample2, 0))"
    by auto
  then show ?thesis
    unfolding c a using ledgeExample2_scan by simp
qed

end
